theory Spec2Isabelle
  imports Complex_Main "HOL-Library.Word"
begin

unbundle bit_operations_syntax

section \<open>Bytes, strings and errors\<close>

text \<open>
  Go's \<open>byte\<close> is \<open>uint8\<close>. A \<open>[]byte\<close> and a \<open>string\<close> are both sequences of bytes, and
  the program converts freely between them (\<open>string(query[i:i+length])\<close>,
  \<open>[]byte(input)\<close>), so both are lists of 8-bit words here. \<open>str\<close> writes a literal.
  A nil slice and an empty slice are both \<open>[]\<close>, except for the response buffer of a
  flow, which the program compares with nil (see \<open>source\<close> below).
\<close>

type_synonym byte = "8 word"
type_synonym bytes = "byte list"

definition str :: "string \<Rightarrow> bytes" where
  "str s = map of_char s"

text \<open>Go's slice expression \<open>xs[lo:hi]\<close>, for \<open>lo \<le> hi \<le> len(xs)\<close>.\<close>

definition slice :: "nat \<Rightarrow> nat \<Rightarrow> 'a list \<Rightarrow> 'a list" where
  "slice lo hi xs = take (hi - lo) (drop lo xs)"

text \<open>
  Every error return, runtime panic and \<open>log.Fatalf\<close> of the modelled functions is a
  value of this type.
\<close>

datatype error =
    BufferTooSmall              \<comment> \<open>"buffer too small for MySQL packet header"\<close>
  | IncompletePacket            \<comment> \<open>"incomplete MySQL packet"\<close>
  | EmptyComQuery               \<comment> \<open>"empty COM_QUERY data"\<close>
  | MissingParameterSetCount    \<comment> \<open>"incomplete COM_QUERY: missing parameter_set_count"\<close>
  | ParameterSetCountNull       \<comment> \<open>"parameter_set_count is NULL"\<close>
  | ParametersNotSupported "64 word"
                                \<comment> \<open>"COM_QUERY with parameters (parameter_count=%d) not yet supported"\<close>
  | MissingQueryText            \<comment> \<open>"incomplete COM_QUERY: missing query text"\<close>
  | IncompleteInteger           \<comment> \<open>a length-encoded integer cut short\<close>
  | Fatal                       \<comment> \<open>\<open>log.Fatalf\<close>: the process exits\<close>
  | Panic                       \<comment> \<open>a runtime panic: slice bounds out of range\<close>

section \<open>Wire framer: \<open>carvePacket\<close>\<close>

type_synonym CommandType = byte

definition COM_QUERY :: CommandType where
  "COM_QUERY = 3"

text \<open>
  \<open>carvePacket(buf *[]byte) (CommandType, []byte, error)\<close>. The buffer is passed by
  pointer; the model returns the result together with the buffer afterwards.
  \<open>dataLen\<close> and \<open>size\<close> are \<open>uint32\<close>.
\<close>

definition carvePacket :: "bytes \<Rightarrow> (error + CommandType \<times> bytes) \<times> bytes" where
  "carvePacket buf =
     (let dataLen = (of_nat (length buf) :: 32 word) in
      if dataLen < 5 then (Inl BufferTooSmall, buf)
      else
        let size = (ucast (buf ! 0) :: 32 word) + push_bit 8 (ucast (buf ! 1))
                     + push_bit 16 (ucast (buf ! 2)) in
        if size = 0 \<or> dataLen < size + 4 then (Inl IncompletePacket, buf)
        else
          let end = size + 4;
              pType = buf ! 4;
              data = slice 5 (unat (size + 4)) buf
          in (Inr (pType, data), if end \<ge> dataLen then [] else drop (unat end) buf))"

section \<open>Configuration\<close>

text \<open>
  The format template is a \<open>[]interface{}\<close> holding strings and the integer constants
  \<open>F_QUERY\<close>, \<open>F_ROUTE\<close>, \<open>F_SOURCE\<close>, \<open>F_SOURCEIP\<close>. \<open>F_NONE\<close> is the value of
  \<open>do_append\<close> when nothing is to be appended; \<open>parseFormat\<close> never stores it.
\<close>

datatype field = F_NONE | F_QUERY | F_ROUTE | F_SOURCE | F_SOURCEIP

datatype item = Lit bytes | Tag field

text \<open>The package-level variables set from the command line.\<close>

record config =
  verbose :: bool
  noclean :: bool
  dirty :: bool
  showRows :: bool
  format :: "item list"

section \<open>The \<open>strings\<close> functions the program calls\<close>

text \<open>
  \<open>strings.Index(s, sep)\<close>: the index of the first occurrence of \<open>sep\<close> in \<open>s\<close>,
  \<open>None\<close> for Go's \<open>-1\<close>.
\<close>

fun Index :: "bytes \<Rightarrow> bytes \<Rightarrow> nat option" where
  "Index [] sep = (if sep = [] then Some 0 else None)"
| "Index (c # cs) sep =
     (if take (length sep) (c # cs) = sep then Some 0 else map_option Suc (Index cs sep))"

definition Contains :: "bytes \<Rightarrow> bytes \<Rightarrow> bool" where
  "Contains s substr = (Index s substr \<noteq> None)"

text \<open>
  \<open>strings.SplitN(s, sep, n)\<close> for a non-empty separator and \<open>n \<ge> 0\<close>, the way the
  program calls it (\<open>" "\<close> with 5 and \<open>":"\<close> with 2): at most \<open>n\<close> pieces, the last one
  the unsplit remainder; \<open>n = 0\<close> gives no piece.
\<close>

fun SplitN :: "bytes \<Rightarrow> bytes \<Rightarrow> nat \<Rightarrow> bytes list" where
  "SplitN s sep 0 = []"
| "SplitN s sep (Suc 0) = [s]"
| "SplitN s sep (Suc (Suc n)) =
     (case Index s sep of
        None \<Rightarrow> [s]
      | Some m \<Rightarrow> take m s # SplitN (drop (m + length sep) s) sep (Suc n))"

text \<open>
  \<open>strings.ReplaceAll(s, old, new)\<close> for a non-empty \<open>old\<close> (the program passes
  \<open>"?, "\<close>): the non-overlapping occurrences of \<open>old\<close>, found from the left, are
  replaced. An empty \<open>old\<close> is not modelled and returns \<open>s\<close>.
\<close>

function ReplaceAll :: "bytes \<Rightarrow> bytes \<Rightarrow> bytes \<Rightarrow> bytes" where
  "ReplaceAll s old new =
     (if old = [] then s
      else if take (length old) s = old then new @ ReplaceAll (drop (length old) s) old new
      else case s of [] \<Rightarrow> [] | c # cs \<Rightarrow> c # ReplaceAll cs old new)"
  by pat_completeness auto

termination ReplaceAll
proof (relation "measure (\<lambda>(s, old, new). length s)", goal_cases)
  case 1
  show ?case by simp
next
  case (2 s old new)
  have "length (take (length old) s) = length old" using 2 by simp
  then have "length old \<le> length s" by simp
  moreover have "0 < length old" using 2 by simp
  ultimately have "length s - length old < length s" by arith
  then show ?case by simp
next
  case (3 s old new c cs)
  then show ?case by simp
qed

section \<open>Query canonicalizer: \<open>scanToken\<close> and \<open>cleanupQuery\<close>\<close>

datatype toktype = TOKEN_WORD | TOKEN_QUOTE | TOKEN_NUMBER | TOKEN_WHITESPACE | TOKEN_OTHER

text \<open>The byte classes that the \<open>switch\<close> of \<open>scanToken\<close> tests.\<close>

definition is_quote :: "byte \<Rightarrow> bool" where
  "is_quote b = (b = 39 \<or> b = 34)"

definition is_digit :: "byte \<Rightarrow> bool" where
  "is_digit b = (b \<ge> 48 \<and> b \<le> 57)"

definition is_space :: "byte \<Rightarrow> bool" where
  "is_space b = (b = 32 \<or> (b \<ge> 9 \<and> b \<le> 13))"

definition is_letter :: "byte \<Rightarrow> bool" where
  "is_letter b = ((b \<ge> 65 \<and> b \<le> 90) \<or> (b \<ge> 97 \<and> b \<le> 122))"

definition is_wordchar :: "byte \<Rightarrow> bool" where
  "is_wordchar b = (is_digit b \<or> is_letter b \<or> b = 36 \<or> b = 95)"

text \<open>
  The loop of the quote case, \<open>for i := 1; i < len(query); i++\<close>: the list is
  \<open>query[i:]\<close>. Falling out of the loop returns \<open>len(query)\<close>, which is \<open>i\<close> then.
\<close>

fun scan_quote :: "byte \<Rightarrow> bool \<Rightarrow> nat \<Rightarrow> bytes \<Rightarrow> nat" where
  "scan_quote started_with escaped i [] = i"
| "scan_quote started_with escaped i (c # cs) =
     (if c = started_with then
        (if escaped then scan_quote started_with False (i + 1) cs else i + 1)
      else if c = 92 then scan_quote started_with True (i + 1) cs
      else scan_quote started_with False (i + 1) cs)"

text \<open>
  The loops of the number, whitespace and word cases have one shape: go on while the
  byte is allowed, return \<open>i\<close> at the first byte that is not, \<open>len(query)\<close> at the end.
\<close>

fun scan_run :: "(byte \<Rightarrow> bool) \<Rightarrow> nat \<Rightarrow> bytes \<Rightarrow> nat" where
  "scan_run allowed i [] = i"
| "scan_run allowed i (c # cs) = (if allowed c then scan_run allowed (i + 1) cs else i)"

text \<open>\<open>scanToken(query []byte) (length int, thistype int)\<close>.\<close>

definition scanToken :: "config \<Rightarrow> bytes \<Rightarrow> error + nat \<times> toktype" where
  "scanToken cfg query =
     (case query of
        [] \<Rightarrow> Inl Fatal
      | b # rest \<Rightarrow>
          if verbose cfg \<and> noclean cfg then Inr (length query, TOKEN_OTHER)
          else if b = 39 \<or> b = 34 then Inr (scan_quote b False 1 rest, TOKEN_QUOTE)
          else if b \<ge> 48 \<and> b \<le> 57 then Inr (scan_run is_digit 1 rest, TOKEN_NUMBER)
          else if b = 32 \<or> (b \<ge> 9 \<and> b \<le> 13) then
            Inr (scan_run is_space 1 rest, TOKEN_WHITESPACE)
          else if (b \<ge> 65 \<and> b \<le> 90) \<or> (b \<ge> 97 \<and> b \<le> 122) then
            Inr (scan_run is_wordchar 1 rest, TOKEN_WORD)
          else Inr (1, TOKEN_OTHER))"

text \<open>What the token loop of \<open>cleanupQuery\<close> appends to \<open>qspace\<close> for one token.\<close>

definition emit :: "toktype \<Rightarrow> bytes \<Rightarrow> bytes" where
  "emit toktype tok =
     (case toktype of
        TOKEN_WORD \<Rightarrow> tok
      | TOKEN_OTHER \<Rightarrow> tok
      | TOKEN_NUMBER \<Rightarrow> str ''?''
      | TOKEN_QUOTE \<Rightarrow> str ''?''
      | TOKEN_WHITESPACE \<Rightarrow> str '' '')"

text \<open>
  The token loop, \<open>for i := 0; i < len(query); { ... i += length }\<close>: \<open>rest\<close> is
  \<open>query[i:]\<close>. The \<open>default\<close> branch of its \<open>switch\<close> (an unknown token type) has no
  value in \<open>toktype\<close>.
\<close>

function cleanup_loop :: "config \<Rightarrow> bytes \<Rightarrow> bytes list \<Rightarrow> error + bytes list" where
  "cleanup_loop cfg rest qspace =
     (if rest = [] then Inr qspace
      else case scanToken cfg rest of
             Inl e \<Rightarrow> Inl e
           | Inr (len, toktype) \<Rightarrow>
               cleanup_loop cfg (drop len rest) (qspace @ [emit toktype (take len rest)]))"
  by pat_completeness auto

lemma scan_quote_bounds:
  "i \<le> scan_quote sw e i cs \<and> scan_quote sw e i cs \<le> i + length cs"
proof (induction cs arbitrary: e i)
  case Nil
  show ?case by simp
next
  case (Cons c cs)
  from Cons.IH [where e=False and i="i + 1"] Cons.IH [where e=True and i="i + 1"]
  show ?case by auto
qed

lemma scan_run_bounds: "i \<le> scan_run p i cs \<and> scan_run p i cs \<le> i + length cs"
proof (induction cs arbitrary: i)
  case Nil
  show ?case by simp
next
  case (Cons c cs)
  from Cons.IH [where i="i + 1"] show ?case by auto
qed

lemma scanToken_bounds:
  assumes "scanToken cfg q = Inr (n, t)"
  shows "1 \<le> n \<and> n \<le> length q"
proof (cases q)
  case Nil
  with assms show ?thesis by (simp add: scanToken_def)
next
  case (Cons b rest)
  have "n = length q \<or> n = scan_quote b False 1 rest \<or> (\<exists>p. n = scan_run p 1 rest) \<or> n = 1"
    using assms Cons by (auto simp: scanToken_def split: if_splits)
  then show ?thesis
    using scan_quote_bounds [of 1 b False rest] scan_run_bounds [of 1 _ rest] Cons
    by auto
qed

termination cleanup_loop
proof (relation "measure (\<lambda>(cfg, rest, qspace). length rest)", goal_cases)
  case 1
  show ?case by simp
next
  case (2 cfg rest qspace x2 x y)
  then have "1 \<le> x" using scanToken_bounds [of cfg rest x y] by simp
  with 2 show ?case by simp
qed

text \<open>
  \<open>cleanupQuery(query []byte) string\<close>: the token loop, \<open>strings.Join(qspace, "")\<close>, the
  rewriting of a leading \<open>/* host:route */\<close> comment, and the removal of every \<open>"?, "\<close>.
\<close>

definition cleanupQuery :: "config \<Rightarrow> bytes \<Rightarrow> error + bytes" where
  "cleanupQuery cfg query =
     (case cleanup_loop cfg query [] of
        Inl e \<Rightarrow> Inl e
      | Inr qspace \<Rightarrow>
          let tmp = concat qspace;
              parts = SplitN tmp (str '' '') 5;
              tmp = (if length parts \<ge> 5 \<and> parts ! 1 = str ''/*'' \<and> parts ! 3 = str ''*/''
                     then
                       (if Contains (parts ! 2) (str '':'') then
                          parts ! 0 @ str '' /* '' @ SplitN (parts ! 2) (str '':'') 2 ! 1
                            @ str '' */ '' @ parts ! 4
                        else tmp)
                     else tmp)
          in Inr (ReplaceAll tmp (str ''?, '') []))"

section \<open>Fingerprint formatter: \<open>parseFormat\<close> and \<open>formatQueryText\<close>\<close>

text \<open>
  \<open>strings.TrimSpace\<close> and \<open>strings.ToLower\<close> on ASCII text: the white space of ASCII
  is the bytes 9 to 13 and 32, the upper-case letters the bytes 65 to 90. \<open>parseFormat\<close>
  ranges over the runes of the template; a rune of an ASCII template is one byte, and
  the model is of such templates.
\<close>

definition TrimSpace :: "bytes \<Rightarrow> bytes" where
  "TrimSpace s = rev (dropWhile is_space (rev (dropWhile is_space s)))"

definition ToLower :: "byte \<Rightarrow> byte" where
  "ToLower c = (if c \<ge> 65 \<and> c \<le> 90 then c + 32 else c)"

text \<open>
  The loop of \<open>parseFormat\<close>, \<open>for _, char := range formatstr\<close>, with its variables
  \<open>is_special\<close> and \<open>curstr\<close> and the global \<open>format\<close> (here \<open>fmt\<close>); \<open>do_append\<close> is \<open>F_NONE\<close> at
  the start of every round. The result is \<open>fmt\<close> and \<open>curstr\<close> after the loop.
\<close>

fun parseFormat_loop :: "bytes \<Rightarrow> bool \<Rightarrow> bytes \<Rightarrow> item list \<Rightarrow> item list \<times> bytes" where
  "parseFormat_loop [] is_special curstr fmt = (fmt, curstr)"
| "parseFormat_loop (char # rest) is_special curstr fmt =
     (if char = 35 then
        (if is_special then parseFormat_loop rest False (curstr @ [char]) fmt
         else parseFormat_loop rest True curstr fmt)
      else
        let (do_append, curstr) =
              (if is_special then
                 (if ToLower char = 115 then (F_SOURCE, curstr)
                  else if ToLower char = 105 then (F_SOURCEIP, curstr)
                  else if ToLower char = 114 then (F_ROUTE, curstr)
                  else if ToLower char = 113 then (F_QUERY, curstr)
                  else (F_NONE, curstr @ [35] @ [char]))
               else (F_NONE, curstr @ [char]))
        in
          if do_append \<noteq> F_NONE then
            (if curstr \<noteq> [] then
               parseFormat_loop rest False [] (fmt @ [Lit curstr, Tag do_append])
             else parseFormat_loop rest False curstr (fmt @ [Tag do_append]))
          else parseFormat_loop rest False curstr fmt)"

text \<open>
  \<open>parseFormat(formatstr string)\<close> appends to the global \<open>format\<close>, here its first
  argument.
\<close>

definition parseFormat :: "item list \<Rightarrow> bytes \<Rightarrow> item list" where
  "parseFormat fmt formatstr =
     (let formatstr = TrimSpace formatstr;
          formatstr = (if formatstr = [] then str ''#b:#k'' else formatstr);
          (fmt, curstr) = parseFormat_loop formatstr False [] fmt
      in if curstr \<noteq> [] then fmt @ [Lit curstr] else fmt)"

section \<open>Length-encoded integers\<close>

text \<open>
  Modelled from the spec: \<open>mysql.LengthEncodedInt\<close> of the go-mysql library, a
  dependency whose source is not in the repository. Section 4.2 of the spec gives the
  encoding: a first byte below \<open>0xFB\<close> is the value; \<open>0xFC\<close>, \<open>0xFD\<close> and \<open>0xFE\<close>
  prefix a little-endian value of 2, 3 and 8 bytes; \<open>0xFB\<close> is NULL; too few bytes
  after a prefix fail (\<open>IncompleteInteger\<close>). The result \<open>(num, isNull, n)\<close> is the
  one the program's calls read, \<open>n\<close> the number of bytes taken; on an empty input
  \<open>n\<close> is 0, which is what the callers test for. The spec is silent on a first byte
  \<open>0xFF\<close>; it is taken as the value, as every byte that is no prefix.
\<close>

fun le_uint :: "bytes \<Rightarrow> 64 word" where
  "le_uint [] = 0"
| "le_uint (b # bs) = ucast b OR push_bit 8 (le_uint bs)"

definition LengthEncodedInt :: "bytes \<Rightarrow> error + 64 word \<times> bool \<times> nat" where
  "LengthEncodedInt b =
     (case b of
        [] \<Rightarrow> Inr (0, True, 0)
      | b0 # _ \<Rightarrow>
          if b0 = 0xfb then Inr (0, True, 1)
          else if b0 = 0xfc then
            (if length b < 3 then Inl IncompleteInteger else Inr (le_uint (slice 1 3 b), False, 3))
          else if b0 = 0xfd then
            (if length b < 4 then Inl IncompleteInteger else Inr (le_uint (slice 1 4 b), False, 4))
          else if b0 = 0xfe then
            (if length b < 9 then Inl IncompleteInteger else Inr (le_uint (slice 1 9 b), False, 9))
          else Inr (ucast b0, False, 1))"

section \<open>Command payload decoder: \<open>parseComQuery\<close>\<close>

text \<open>\<open>parseComQuery(data []byte) ([]byte, error)\<close>.\<close>

definition parseComQuery :: "bytes \<Rightarrow> error + bytes" where
  "parseComQuery data =
     (if length data = 0 then Inl EmptyComQuery
      else
        let firstByte = data ! 0 in
        if firstByte < 0x20 \<or> firstByte \<ge> 0xfb then
          (let offset = 0 in
           case LengthEncodedInt (drop offset data) of
             Inl e \<Rightarrow> Inl e
           | Inr (paramCount, isNull, bytesRead) \<Rightarrow>
               if isNull \<or> bytesRead = 0 then Inr data
               else
                 let offset = offset + bytesRead in
                 if offset \<ge> length data then Inl MissingParameterSetCount
                 else
                   (case LengthEncodedInt (drop offset data) of
                      Inl e \<Rightarrow> Inl e
                    | Inr (paramSetCount, isNull, bytesRead) \<Rightarrow>
                        if isNull then Inl ParameterSetCountNull
                        else
                          let offset = offset + bytesRead in
                          if paramCount > 0 then Inl (ParametersNotSupported paramCount)
                          else if offset \<ge> length data then Inl MissingQueryText
                          else Inr (drop offset data)))
        else Inr data)"

section \<open>Response decoder: \<open>parseOKPacket\<close>\<close>

definition COLOR_GREEN :: bytes where
  "COLOR_GREEN = 0x1b # str ''[32m''"

definition COLOR_YELLOW :: bytes where
  "COLOR_YELLOW = 0x1b # str ''[33m''"

definition COLOR_CYAN :: bytes where
  "COLOR_CYAN = 0x1b # str ''[36m''"

definition COLOR_DEFAULT :: bytes where
  "COLOR_DEFAULT = 0x1b # str ''[39m''"

text \<open>The \<open>%d\<close> of \<open>fmt.Sprintf\<close> on an unsigned integer: its decimal digits.\<close>

fun decimal :: "nat \<Rightarrow> bytes" where
  "decimal n = (if n < 10 then [48 + of_nat n] else decimal (n div 10) @ [48 + of_nat (n mod 10)])"

text \<open>
  \<open>parseOKPacket(data []byte) string\<close>. \<open>warnings\<close> is \<open>uint16\<close>; the status flags are
  read and dropped.
\<close>

definition parseOKPacket :: "bytes \<Rightarrow> error + bytes" where
  "parseOKPacket data =
     (if length data < 7 then Inr (str ''OK'')
      else
        let pos = 1 in
        case LengthEncodedInt (drop pos data) of
          Inl e \<Rightarrow> Inl e
        | Inr (affectedRows, _, n) \<Rightarrow>
            let pos = pos + n in
            (case LengthEncodedInt (drop pos data) of
               Inl e \<Rightarrow> Inl e
             | Inr (lastInsertID, _, n) \<Rightarrow>
                 let pos = pos + n;
                     warnings =
                       (if length data \<ge> pos + 4 then
                          (ucast (data ! (pos + 2)) :: 16 word)
                            OR push_bit 8 (ucast (data ! (pos + 2 + 1)))
                        else 0)
                 in Inr (COLOR_GREEN @ str ''OK'' @ COLOR_DEFAULT
                      @ (if affectedRows > 0 then
                           str '', '' @ COLOR_YELLOW @ decimal (unat affectedRows)
                             @ str '' row(s) affected'' @ COLOR_DEFAULT
                         else [])
                      @ (if lastInsertID > 0 then
                           str '', '' @ COLOR_CYAN @ str ''last insert ID: ''
                             @ decimal (unat lastInsertID) @ COLOR_DEFAULT
                         else [])
                      @ (if warnings > 0 then
                           str '', '' @ COLOR_YELLOW @ decimal (unat warnings)
                             @ str '' warning(s)'' @ COLOR_DEFAULT
                         else []))))"

section \<open>Latency reservoir: \<open>calculateTimes\<close>\<close>

definition TIME_BUCKETS :: nat where
  "TIME_BUCKETS = 10000"

text \<open>
  One round of the loop of \<open>calculateTimes\<close> on the \<open>uint64\<close> variables
  \<open>(counts, total, min, max, has_min)\<close>; \<open>min\<close> and \<open>max\<close> are \<open>minv\<close> and \<open>maxv\<close> here.
\<close>

definition calculateTimes_step ::
  "64 word \<Rightarrow> 64 word \<times> 64 word \<times> 64 word \<times> 64 word \<times> bool
     \<Rightarrow> 64 word \<times> 64 word \<times> 64 word \<times> 64 word \<times> bool" where
  "calculateTimes_step val st =
     (let (counts, total, minv, maxv, has_min) = st in
        if val = 0 then st
        else
          let (has_min, minv) =
                (if val < minv \<or> \<not> has_min then (True, val) else (has_min, minv));
              maxv = (if val > maxv then val else maxv)
          in (counts + 1, total + val, minv, maxv, has_min))"

text \<open>
  \<open>calculateTimes(timings *[TIME_BUCKETS]uint64) (fmin, favg, fmax float64)\<close>. The
  integers are \<open>uint64\<close>, the division \<open>total / counts\<close> is the integer one. The three
  results are \<open>float64(x) / 1000000\<close>; the model computes them in the reals, without
  the rounding of \<open>float64\<close>.
\<close>

definition calculateTimes :: "64 word list \<Rightarrow> real \<times> real \<times> real" where
  "calculateTimes timings =
     (let (counts, total, minv, maxv, has_min) =
            fold calculateTimes_step timings (0, 0, 0, 0, False);
          avg = (if counts > 0 then total div counts else 0)
      in (real (unat minv) / 1000000, real (unat avg) / 1000000, real (unat maxv) / 1000000))"

section \<open>Flow state machine\<close>

text \<open>
  \<open>queryData\<close>, one per fingerprint. \<open>qbuf\<close> maps a fingerprint to a pointer to its
  \<open>queryData\<close>; an entry is never removed or replaced, so the pointer \<open>qData\<close> of a
  flow is modelled by the fingerprint it was looked up with.
\<close>

record queryData =
  count :: "64 word"
  bytes :: "64 word"
  times :: "64 word list"

text \<open>
  \<open>source\<close>, the state of one flow. \<open>respBuffer\<close> is compared with nil, so it is an
  option (\<open>None\<close> for nil); \<open>reqSent\<close> is a \<open>*time.Time\<close>, a time being a number of
  nanoseconds here.
\<close>

record source =
  hostPort :: bytes
  srcIP :: bytes
  synced :: bool
  reqBuffer :: bytes
  respBuffer :: "bytes option"
  reqSent :: "int option"
  reqTimes :: "64 word list"
  qBytes :: "64 word"
  qData :: "bytes option"
  qText :: bytes

text \<open>The package-level variables that the flows share.\<close>

record globals =
  qbuf :: "bytes \<rightharpoonup> queryData"
  queryCount :: int
  chmap :: "bytes \<rightharpoonup> source"
  gtimes :: "64 word list"
  rcvd :: "64 word"
  rcvd_sync :: "64 word"
  desyncs :: "64 word"
  streams :: "64 word"

text \<open>
  \<open>formatQueryText(rs *source, pdata []byte) string\<close>: the loop over \<open>format\<close>, with
  \<open>text\<close> so far. An item is a string or one of the four field tags; \<open>F_NONE\<close> is
  fatal.
\<close>

fun formatQueryText_loop :: "config \<Rightarrow> source \<Rightarrow> bytes \<Rightarrow> item list \<Rightarrow> bytes \<Rightarrow> error + bytes" where
  "formatQueryText_loop cfg rs pdata [] text = Inr text"
| "formatQueryText_loop cfg rs pdata (Lit s # items) text =
     formatQueryText_loop cfg rs pdata items (text @ s)"
| "formatQueryText_loop cfg rs pdata (Tag F_NONE # items) text = Inl Fatal"
| "formatQueryText_loop cfg rs pdata (Tag F_QUERY # items) text =
     (if dirty cfg then formatQueryText_loop cfg rs pdata items (text @ pdata)
      else case cleanupQuery cfg pdata of
             Inl e \<Rightarrow> Inl e
           | Inr q \<Rightarrow> formatQueryText_loop cfg rs pdata items (text @ q))"
| "formatQueryText_loop cfg rs pdata (Tag F_ROUTE # items) text =
     (let parts = SplitN pdata (str '' '') 5 in
      if length parts \<ge> 4 \<and> parts ! 1 = str ''/*'' \<and> parts ! 3 = str ''*/'' then
        (if Contains (parts ! 2) (str '':'') then
           formatQueryText_loop cfg rs pdata items (text @ SplitN (parts ! 2) (str '':'') 2 ! 1)
         else formatQueryText_loop cfg rs pdata items (text @ parts ! 2))
      else case cleanupQuery cfg pdata of
             Inl e \<Rightarrow> Inl e
           | Inr q \<Rightarrow> formatQueryText_loop cfg rs pdata items (text @ str ''(unknown) '' @ q))"
| "formatQueryText_loop cfg rs pdata (Tag F_SOURCE # items) text =
     formatQueryText_loop cfg rs pdata items (text @ hostPort rs)"
| "formatQueryText_loop cfg rs pdata (Tag F_SOURCEIP # items) text =
     formatQueryText_loop cfg rs pdata items (text @ srcIP rs)"

definition formatQueryText :: "config \<Rightarrow> source \<Rightarrow> bytes \<Rightarrow> error + bytes" where
  "formatQueryText cfg rs pdata = formatQueryText_loop cfg rs pdata (format cfg) []"

text \<open>
  A captured segment as \<open>processPacket\<close> gets it: the direction and the payload, with
  what the clock and the random generator give while it is handled: \<open>now\<close> for
  \<open>time.Now()\<close> and \<open>time.Since\<close>, \<open>randn\<close> for \<open>rand.Intn(TIME_BUCKETS)\<close>, which
  returns a number below \<open>TIME_BUCKETS\<close>.
\<close>

record segment =
  request :: bool
  data :: bytes
  now :: int
  randn :: nat

text \<open>
  Where a call of \<open>processRequest\<close> or \<open>processResponse\<close> returns: the model returns
  it with the new state, so that a run of segments has a trace.
  \<^item> \<open>ReqIncomplete\<close>: \<open>carvePacket\<close> found no complete packet;
  \<^item> \<open>ReqUnsynced\<close>: the flow is not synced and the command is no \<open>COM_QUERY\<close>;
  \<^item> \<open>ReqUnparsed\<close>: \<open>parseComQuery\<close> failed;
  \<^item> \<open>ReqRecorded\<close>: the command (of the given type) was time-stamped and counted;
  \<^item> \<open>RespAccumulated\<close>: a response segment with no request outstanding;
  \<^item> \<open>RespPaired\<close>: a response segment paired with the outstanding request.
\<close>

datatype outcome =
    ReqIncomplete error
  | ReqUnsynced
  | ReqUnparsed error
  | ReqRecorded CommandType
  | RespAccumulated
  | RespPaired

text \<open>
  \<open>processRequest(rs *source, data []byte)\<close> on the globals and the flow. The log
  calls are left out. A fatal error inside \<open>formatQueryText\<close> ends the process.
\<close>

definition processRequest ::
  "config \<Rightarrow> globals \<Rightarrow> source \<Rightarrow> segment \<Rightarrow> error + globals \<times> source \<times> outcome" where
  "processRequest cfg g rs seg =
     (let (g, rs) =
            (if respBuffer rs \<noteq> None then
               (g\<lparr>desyncs := desyncs g + 1\<rparr>, rs\<lparr>respBuffer := None, synced := False\<rparr>)
             else (g, rs));
          rs = rs\<lparr>reqBuffer := data seg\<rparr>;
          (res, buf) = carvePacket (reqBuffer rs);
          rs = rs\<lparr>reqBuffer := buf\<rparr>
      in case res of
           Inl err \<Rightarrow> Inr (g, rs, ReqIncomplete err)
         | Inr (pType, pData) \<Rightarrow>
             if \<not> synced rs \<and> pType \<noteq> COM_QUERY then
               Inr (g, rs\<lparr>reqBuffer := [], respBuffer := None\<rparr>, ReqUnsynced)
             else
               let rs = (if \<not> synced rs then rs\<lparr>synced := True\<rparr> else rs) in
               case (if pType = COM_QUERY then parseComQuery pData else Inr pData) of
                 Inl err \<Rightarrow> Inr (g, rs, ReqUnparsed err)
               | Inr parsedQuery \<Rightarrow>
                   let rs = rs\<lparr>reqSent := Some (now seg)\<rparr>;
                       g = g\<lparr>queryCount := queryCount g + 1\<rparr>
                   in case formatQueryText cfg rs parsedQuery of
                        Inl err \<Rightarrow> Inl err
                      | Inr text \<Rightarrow>
                          let plen = (of_nat (length pData) :: 64 word);
                              qdata = (case qbuf g text of
                                         None \<Rightarrow> \<lparr>count = 0, bytes = 0,
                                                   times = replicate TIME_BUCKETS 0\<rparr>
                                       | Some qd \<Rightarrow> qd);
                              qdata = qdata\<lparr>count := count qdata + 1, bytes := bytes qdata + plen\<rparr>;
                              g = g\<lparr>qbuf := (qbuf g)(text \<mapsto> qdata)\<rparr>
                          in Inr (g, rs\<lparr>qText := text, qData := Some text, qBytes := plen\<rparr>,
                                  ReqRecorded pType))"

text \<open>
  \<open>processResponse(rs *source, data []byte)\<close>. The payload is a non-nil slice
  (\<open>handlePacket\<close> drops an empty one). \<open>reqtime\<close> is
  \<open>uint64(time.Since(*rs.reqSent).Nanoseconds())\<close>. In verbose mode
  \<open>displayQueryResult\<close> writes the query and the decoded response to the log; the log is
  not modelled.
\<close>

definition processResponse ::
  "config \<Rightarrow> globals \<Rightarrow> source \<Rightarrow> segment \<Rightarrow> globals \<times> source \<times> outcome" where
  "processResponse cfg g rs seg =
     (let rs = rs\<lparr>respBuffer := (case respBuffer rs of
                                     None \<Rightarrow> Some (data seg)
                                   | Some b \<Rightarrow> Some (b @ data seg))\<rparr>;
          add_bytes = (\<lambda>qd. qd\<lparr>bytes := bytes qd + of_nat (length (data seg))\<rparr>)
      in case reqSent rs of
           None \<Rightarrow>
             (case qData rs of
                None \<Rightarrow> (g, rs, RespAccumulated)
              | Some k \<Rightarrow>
                  (g\<lparr>qbuf := (qbuf g)(k := map_option add_bytes (qbuf g k))\<rparr>, rs,
                   RespAccumulated))
         | Some sent \<Rightarrow>
             let reqtime = (word_of_int (now seg - sent) :: 64 word);
                 n = randn seg mod TIME_BUCKETS;
                 rs = rs\<lparr>reqTimes := (reqTimes rs)[n := reqtime]\<rparr>;
                 g = g\<lparr>gtimes := (gtimes g)[n := reqtime]\<rparr>;
                 g = (case qData rs of
                        None \<Rightarrow> g
                      | Some k \<Rightarrow>
                          g\<lparr>qbuf := (qbuf g)(k := map_option
                                 (\<lambda>qd. add_bytes (qd\<lparr>times := (times qd)[n := reqtime]\<rparr>))
                                 (qbuf g k))\<rparr>);
                 rs = rs\<lparr>reqSent := None\<rparr>;
                 rs = rs\<lparr>respBuffer := None\<rparr>
             in (g, rs, RespPaired))"

text \<open>\<open>processPacket(rs *source, request bool, data []byte)\<close>.\<close>

definition processPacket ::
  "config \<Rightarrow> globals \<Rightarrow> source \<Rightarrow> segment \<Rightarrow> error + globals \<times> source \<times> outcome" where
  "processPacket cfg g rs seg =
     (let g = g\<lparr>rcvd := rcvd g + 1\<rparr>;
          g = (if synced rs then g\<lparr>rcvd_sync := rcvd_sync g + 1\<rparr> else g)
      in if request seg then processRequest cfg g rs seg
         else Inr (processResponse cfg g rs seg))"

text \<open>
  The end of \<open>handlePacket\<close>, from the endpoint \<open>src\<close> of the client on: the flow is
  looked up in \<open>chmap\<close>, made on its first segment, and handed to \<open>processPacket\<close>;
  the flow is a pointer, so what \<open>processPacket\<close> does to it is stored back. The
  decoding of the captured packet into \<open>src\<close>, direction and payload is the capture
  layer's. \<open>src\<close> is \<open>ip:port\<close>; \<open>src[0:strings.Index(src, ":")]\<close> panics without a
  colon.
\<close>

definition handlePacket ::
  "config \<Rightarrow> globals \<Rightarrow> bytes \<Rightarrow> segment \<Rightarrow> error + globals \<times> outcome option" where
  "handlePacket cfg g src seg =
     (if length (data seg) \<le> 0 then Inr (g, None)
      else
        case (case chmap g src of
                Some rs \<Rightarrow> Inr (g, rs)
              | None \<Rightarrow>
                  (case Index src (str '':'') of
                     None \<Rightarrow> Inl Panic
                   | Some i \<Rightarrow>
                       Inr (g\<lparr>streams := streams g + 1\<rparr>,
                            \<lparr>hostPort = src, srcIP = slice 0 i src, synced = False,
                             reqBuffer = [], respBuffer = None, reqSent = None,
                             reqTimes = replicate TIME_BUCKETS 0, qBytes = 0,
                             qData = None, qText = []\<rparr>))) of
          Inl err \<Rightarrow> Inl err
        | Inr (g, rs) \<Rightarrow>
            (case processPacket cfg g rs seg of
               Inl err \<Rightarrow> Inl err
             | Inr (g, rs, out) \<Rightarrow> Inr (g\<lparr>chmap := (chmap g)(src \<mapsto> rs)\<rparr>, Some out)))"

text \<open>
  The loop of \<open>main\<close> over the captured packets, from the state \<open>g\<close> on. A packet is
  the client endpoint and the segment. The result is the final state and the trace:
  the endpoint and the outcome of every segment that reached \<open>processPacket\<close>, first
  one first.
\<close>

fun run_packets ::
  "config \<Rightarrow> globals \<Rightarrow> (bytes \<times> segment) list \<Rightarrow> error + globals \<times> (bytes \<times> outcome) list" where
  "run_packets cfg g [] = Inr (g, [])"
| "run_packets cfg g ((src, seg) # ps) =
     (case handlePacket cfg g src seg of
        Inl err \<Rightarrow> Inl err
      | Inr (g, out) \<Rightarrow>
          (case run_packets cfg g ps of
             Inl err \<Rightarrow> Inl err
           | Inr (g, tr) \<Rightarrow> Inr (g, (case out of None \<Rightarrow> tr | Some ou \<Rightarrow> (src, ou) # tr))))"

text \<open>The package-level variables when the program starts.\<close>

definition start_globals :: globals where
  "start_globals =
     \<lparr>qbuf = Map.empty, queryCount = 0, chmap = Map.empty,
      gtimes = replicate TIME_BUCKETS 0, rcvd = 0, rcvd_sync = 0, desyncs = 0, streams = 0\<rparr>"

section \<open>The wire framer frames what the header declares\<close>

text \<open>The payload length that the header of a buffer declares: 24 bits, little-endian.\<close>

definition declared_length :: "bytes \<Rightarrow> nat" where
  "declared_length B = unat (B ! 0) + 256 * unat (B ! 1) + 65536 * unat (B ! 2)"

lemma unat_of_nat32: "n < 2 ^ 32 \<Longrightarrow> unat (of_nat n :: 32 word) = n"
  by (simp add: unat_of_nat)

lemma unat_byte_less: "unat (b :: byte) < 256"
  using unsigned_less [of b, where 'a=nat] by simp

lemma unat_size:
  fixes b0 b1 b2 :: byte
  shows "unat ((ucast b0 :: 32 word) + push_bit 8 (ucast b1) + push_bit 16 (ucast b2))
         = unat b0 + 256 * unat b1 + 65536 * unat b2"
proof -
  have e: "(ucast b0 :: 32 word) + push_bit 8 (ucast b1) + push_bit 16 (ucast b2)
        = of_nat (unat b0 + 256 * unat b1 + 65536 * unat b2)"
    by (simp add: push_bit_eq_mult mult.commute)
  have lt: "unat b0 + 256 * unat b1 + 65536 * unat b2 < 2 ^ 32"
    using unat_byte_less [of b0] unat_byte_less [of b1] unat_byte_less [of b2] by simp
  show ?thesis
    unfolding e by (rule unat_of_nat32 [OF lt])
qed

text \<open>
  C3. For a buffer \<open>B\<close> (of fewer than \<open>2^32\<close> bytes, the range of the framer's
  \<open>uint32\<close> length; a captured segment has at most \<open>2^20\<close>) and the payload length
  \<open>L\<close> its header declares: if \<open>B\<close> has fewer than 5 bytes, or \<open>L\<close> is zero, or \<open>B\<close> has
  fewer than \<open>L + 4\<close> bytes, \<open>carvePacket\<close> returns an error and leaves \<open>B\<close> as it is;
  otherwise it returns the command byte \<open>B[4]\<close> and the \<open>L - 1\<close> payload bytes after it,
  and what is left of the buffer is \<open>B\<close> without its first \<open>L + 4\<close> bytes.
\<close>

theorem carvePacket_frames:
  assumes len: "length B < 2 ^ 32"
  shows "if length B < 5 \<or> declared_length B = 0 \<or> length B < declared_length B + 4
         then (\<exists>e. carvePacket B = (Inl e, B))
         else carvePacket B =
                (Inr (B ! 4, take (declared_length B - 1) (drop 5 B)),
                 drop (declared_length B + 4) B)
              \<and> length (take (declared_length B - 1) (drop 5 B)) = declared_length B - 1"
proof -
  define L where "L = declared_length B"
  define size :: "32 word" where
    "size = ucast (B ! 0) + push_bit 8 (ucast (B ! 1)) + push_bit 16 (ucast (B ! 2))"
  have usz: "unat size = L"
    by (simp add: size_def L_def declared_length_def unat_size)
  have Llt: "L < 2 ^ 24"
    using unat_byte_less [of "B ! 0"] unat_byte_less [of "B ! 1"] unat_byte_less [of "B ! 2"]
    by (simp add: L_def declared_length_def)
  have udl: "unat (of_nat (length B) :: 32 word) = length B"
    by (rule unat_of_nat32 [OF len])
  have u4: "unat (size + 4) = L + 4"
    using Llt usz by (simp add: unat_word_ariths)
  have c1: "(of_nat (length B) :: 32 word) < 5 \<longleftrightarrow> length B < 5"
    by (simp add: word_less_nat_alt udl)
  have c2: "size = 0 \<longleftrightarrow> L = 0"
    using usz by (metis unat_eq_zero)
  have c3: "(of_nat (length B) :: 32 word) < size + 4 \<longleftrightarrow> length B < L + 4"
    by (simp add: word_less_nat_alt udl u4)
  have c4: "size + 4 \<ge> (of_nat (length B) :: 32 word) \<longleftrightarrow> L + 4 \<ge> length B"
    by (simp add: word_le_nat_alt udl u4)
  have eq: "carvePacket B =
      (if (of_nat (length B) :: 32 word) < 5 then (Inl BufferTooSmall, B)
       else if size = 0 \<or> (of_nat (length B) :: 32 word) < size + 4
         then (Inl IncompletePacket, B)
       else (Inr (B ! 4, slice 5 (unat (size + 4)) B),
             if size + 4 \<ge> (of_nat (length B) :: 32 word) then []
             else drop (unat (size + 4)) B))"
    by (simp only: carvePacket_def Let_def size_def)
  show ?thesis
  proof (cases "length B < 5 \<or> L = 0 \<or> length B < L + 4")
    case True
    then show ?thesis
      unfolding L_def [symmetric] eq c1 c2 c3 by auto
  next
    case False
    then have "carvePacket B =
        (Inr (B ! 4, slice 5 (L + 4) B), if L + 4 \<ge> length B then [] else drop (L + 4) B)"
      unfolding eq c1 c2 c3 c4 u4 by simp
    with False show ?thesis
      unfolding L_def [symmetric] by (auto simp: slice_def)
  qed
qed

theorem carvePacket_frames_witness:
  "length [6, 0, 0, 0, 3, 104, 101, 108, 108, 111 :: byte] < 2 ^ 32
   \<and> carvePacket [6, 0, 0, 0, 3, 104, 101, 108, 108, 111] = (Inr (3, str ''hello''), [])
   \<and> carvePacket [1, 0, 0] = (Inl BufferTooSmall, [1, 0, 0])"
  using carvePacket_frames [of "[6, 0, 0, 0, 3, 104, 101, 108, 108, 111]"]
    carvePacket_frames [of "[1, 0, 0]"]
  by (simp add: declared_length_def str_def carvePacket_def slice_def)

section \<open>The token loop terminates\<close>

text \<open>The configuration of a run without flags: \<open>-f\<close> defaults to \<open>#s:#q\<close>.\<close>

definition default_config :: config where
  "default_config =
     \<lparr>verbose = False, noclean = False, dirty = False, showRows = False,
      format = [Tag F_SOURCE, Lit (str '':''), Tag F_QUERY]\<rparr>"

lemma scanToken_Inr: "q \<noteq> [] \<Longrightarrow> \<exists>n t. scanToken cfg q = Inr (n, t)"
  by (cases q) (simp_all add: scanToken_def)

text \<open>
  The tokens that the loop of \<open>cleanupQuery\<close> reads off a query, each with its type and
  its bytes, and the pieces that the loop appends to \<open>qspace\<close> for them.
\<close>

function tokenize :: "config \<Rightarrow> bytes \<Rightarrow> (toktype \<times> bytes) list" where
  "tokenize cfg rest =
     (if rest = [] then []
      else case scanToken cfg rest of
             Inl e \<Rightarrow> []
           | Inr (len, toktype) \<Rightarrow> (toktype, take len rest) # tokenize cfg (drop len rest))"
  by pat_completeness auto
termination
proof (relation "measure (\<lambda>(cfg, rest). length rest)", goal_cases)
  case 1
  show ?case by simp
next
  case (2 cfg rest x2 x y)
  then have "1 \<le> x" using scanToken_bounds [of cfg rest x y] by simp
  with 2 show ?case by simp
qed

declare tokenize.simps [simp del]
declare cleanup_loop.simps [simp del]

lemma tokenize_Nil [simp]: "tokenize cfg [] = []"
  by (simp add: tokenize.simps)

lemma tokenize_step:
  "rest \<noteq> [] \<Longrightarrow> scanToken cfg rest = Inr (n, t) \<Longrightarrow>
   tokenize cfg rest = (t, take n rest) # tokenize cfg (drop n rest)"
  by (subst tokenize.simps) simp

lemma cleanup_loop_Nil [simp]: "cleanup_loop cfg [] qspace = Inr qspace"
  by (simp add: cleanup_loop.simps)

lemma cleanup_loop_step:
  "rest \<noteq> [] \<Longrightarrow> scanToken cfg rest = Inr (n, t) \<Longrightarrow>
   cleanup_loop cfg rest qspace =
     cleanup_loop cfg (drop n rest) (qspace @ [emit t (take n rest)])"
  by (subst cleanup_loop.simps) simp

definition pieces :: "config \<Rightarrow> bytes \<Rightarrow> bytes list" where
  "pieces cfg q = map (\<lambda>(toktype, tok). emit toktype tok) (tokenize cfg q)"

lemma cleanup_loop_pieces: "cleanup_loop cfg rest qspace = Inr (qspace @ pieces cfg rest)"
proof (induction cfg rest qspace rule: cleanup_loop.induct)
  case (1 cfg rest qspace)
  show ?case
  proof (cases "rest = []")
    case True
    then show ?thesis by (simp add: pieces_def)
  next
    case False
    then obtain n t where st: "scanToken cfg rest = Inr (n, t)"
      using scanToken_Inr by blast
    from "1.IH" [OF False st refl] show ?thesis
      by (simp add: cleanup_loop_step [OF False st] tokenize_step [OF False st] pieces_def)
  qed
qed

lemma length_tokenize: "length (tokenize cfg q) \<le> length q"
proof (induction cfg q rule: tokenize.induct)
  case (1 cfg rest)
  show ?case
  proof (cases "rest = []")
    case True
    then show ?thesis by simp
  next
    case False
    then obtain n t where st: "scanToken cfg rest = Inr (n, t)"
      using scanToken_Inr by blast
    from "1.IH" [OF False st refl] scanToken_bounds [OF st]
    have "Suc (length (tokenize cfg (drop n rest))) \<le> length rest"
      by (simp, arith)
    then show ?thesis
      by (simp add: tokenize_step [OF False st])
  qed
qed

text \<open>
  C10. On a non-empty query \<open>scanToken\<close> returns a token length of at least 1 and at
  most the length of the query, so what is left after the token is shorter; the token
  loop of \<open>cleanupQuery\<close> ends on every query after at most \<open>len(query)\<close> rounds (one
  piece a round), and \<open>cleanupQuery\<close> returns a fingerprint.
\<close>

theorem scanToken_progress:
  "(query \<noteq> [] \<longrightarrow>
      (\<exists>n t. scanToken cfg query = Inr (n, t) \<and> 1 \<le> n \<and> n \<le> length query
             \<and> length (drop n query) < length query))
   \<and> (\<exists>qspace. cleanup_loop cfg query [] = Inr qspace \<and> length qspace \<le> length query)
   \<and> (\<exists>fingerprint. cleanupQuery cfg query = Inr fingerprint)"
proof (intro conjI impI)
  assume ne: "query \<noteq> []"
  then obtain n t where st: "scanToken cfg query = Inr (n, t)"
    using scanToken_Inr by blast
  from scanToken_bounds [OF st] ne st
  show "\<exists>n t. scanToken cfg query = Inr (n, t) \<and> 1 \<le> n \<and> n \<le> length query
             \<and> length (drop n query) < length query"
    by (cases query) auto
next
  show "\<exists>qspace. cleanup_loop cfg query [] = Inr qspace \<and> length qspace \<le> length query"
    using length_tokenize [of cfg query] by (simp add: cleanup_loop_pieces pieces_def)
next
  show "\<exists>fingerprint. cleanupQuery cfg query = Inr fingerprint"
    by (simp add: cleanupQuery_def cleanup_loop_pieces Let_def)
qed

theorem scanToken_progress_witness:
  "str ''42abc'' \<noteq> [] \<and> scanToken default_config (str ''42abc'') = Inr (2, TOKEN_NUMBER)
   \<and> cleanup_loop default_config (str ''42abc'') [] = Inr [str ''?'', str ''abc'']"
proof -
  have a: "str ''42abc'' \<noteq> []"
    by (simp add: str_def)
  have b: "scanToken default_config (str ''42abc'') = Inr (2, TOKEN_NUMBER)"
    by code_simp
  have c: "cleanup_loop default_config (str ''42abc'') [] = Inr [str ''?'', str ''abc'']"
    by code_simp
  from scanToken_progress [of "str ''42abc''" default_config] a b c show ?thesis
    by simp
qed

section \<open>The empty format template\<close>

text \<open>
  C6. The claim is that the empty template parses to the items of \<open>#s:#q\<close>: the
  \<open>SOURCE\<close> tag, the literal \<open>:\<close> and the \<open>QUERY\<close> tag. In the code the empty template
  falls back to \<open>#b:#k\<close>, whose two tags do not exist, and parses to that one literal.
\<close>

theorem parseFormat_empty_template:
  "parseFormat [] (str '''') = [Lit (str ''#b:#k'')]
   \<and> parseFormat [] (str ''#s:#q'') = [Tag F_SOURCE, Lit (str '':''), Tag F_QUERY]
   \<and> parseFormat [] (str '''') \<noteq> parseFormat [] (str ''#s:#q'')"
  by code_simp

section \<open>What an OK packet's text mentions\<close>

declare decimal.simps [simp del]

lemma decimal_digit: "c \<in> set (decimal n) \<Longrightarrow> unat c < 58"
proof (induction n rule: decimal.induct)
  case (1 n)
  have d: "unat (48 + of_nat m :: byte) < 58" if "m < 10" for m :: nat
  proof -
    have "unat (48 + of_nat m :: byte) = (48 + m mod 256) mod 256"
      by (simp add: unat_word_ariths unat_of_nat)
    with that show ?thesis by simp
  qed
  show ?case
  proof (cases "n < 10")
    case True
    with 1(2) d [of n] show ?thesis
      by (simp add: decimal.simps [of n])
  next
    case False
    with 1(2) have "c \<in> set (decimal (n div 10)) \<or> c = 48 + of_nat (n mod 10)"
      by (auto simp add: decimal.simps [of n])
    with 1(1) [OF False] d [of "n mod 10"] show ?thesis by auto
  qed
qed

lemma Index_Some_take: "Index s sub = Some i \<Longrightarrow> take (length sub) (drop i s) = sub"
proof (induction s arbitrary: i)
  case Nil
  then show ?case by (simp split: if_splits)
next
  case (Cons c cs)
  show ?case
  proof (cases "take (length sub) (c # cs) = sub")
    case True
    with Cons.prems show ?thesis by simp
  next
    case False
    with Cons.prems obtain j where "Index cs sub = Some j" "i = Suc j"
      by auto
    with Cons.IH [of j] show ?thesis by simp
  qed
qed

lemma Contains_set: "Contains s sub \<Longrightarrow> set sub \<subseteq> set s"
proof -
  assume "Contains s sub"
  then obtain i where "Index s sub = Some i"
    by (auto simp: Contains_def)
  then have "take (length sub) (drop i s) = sub"
    by (rule Index_Some_take)
  then have "set sub = set (take (length sub) (drop i s))" by simp
  also have "\<dots> \<subseteq> set s"
    by (meson set_take_subset set_drop_subset subset_trans)
  finally show ?thesis .
qed

lemma ok_example:
  "parseOKPacket [0x00, 0x03, 0x64, 0x00, 0x00, 0x01, 0x00] =
     Inr (COLOR_GREEN @ str ''OK'' @ COLOR_DEFAULT
          @ str '', '' @ COLOR_YELLOW @ str ''3 row(s) affected'' @ COLOR_DEFAULT
          @ str '', '' @ COLOR_CYAN @ str ''last insert ID: 100'' @ COLOR_DEFAULT
          @ str '', '' @ COLOR_YELLOW @ str ''1 warning(s)'' @ COLOR_DEFAULT)"
  by code_simp


lemma decimal_no_f: "102 \<notin> set (decimal k)"
  using decimal_digit [of 102 k] by auto

lemma decimal_no_l: "108 \<notin> set (decimal k)"
  using decimal_digit [of 108 k] by auto

text \<open>The text that \<open>parseOKPacket\<close> builds from the three numbers it decodes.\<close>

definition ok_text :: "64 word \<Rightarrow> 64 word \<Rightarrow> 16 word \<Rightarrow> bytes" where
  "ok_text affectedRows lastInsertID warnings =
     COLOR_GREEN @ str ''OK'' @ COLOR_DEFAULT
       @ (if affectedRows > 0 then
            str '', '' @ COLOR_YELLOW @ decimal (unat affectedRows)
              @ str '' row(s) affected'' @ COLOR_DEFAULT
          else [])
       @ (if lastInsertID > 0 then
            str '', '' @ COLOR_CYAN @ str ''last insert ID: ''
              @ decimal (unat lastInsertID) @ COLOR_DEFAULT
          else [])
       @ (if warnings > 0 then
            str '', '' @ COLOR_YELLOW @ decimal (unat warnings)
              @ str '' warning(s)'' @ COLOR_DEFAULT
          else [])"

lemma parseOKPacket_Inr:
  assumes "parseOKPacket payload = Inr result"
  shows "result = str ''OK'' \<or>
         (\<exists>a i n b j m w. LengthEncodedInt (drop 1 payload) = Inr (a, i, n)
            \<and> LengthEncodedInt (drop (1 + n) payload) = Inr (b, j, m)
            \<and> result = ok_text a b w)"
proof (cases "length payload < 7")
  case True
  with assms show ?thesis by (simp add: parseOKPacket_def)
next
  case False
  from False assms obtain a i n where l1: "LengthEncodedInt (drop 1 payload) = Inr (a, i, n)"
    by (auto simp: parseOKPacket_def split: sum.splits)
  from False assms l1 obtain b j m
    where l2: "LengthEncodedInt (drop (1 + n) payload) = Inr (b, j, m)"
    by (auto simp: parseOKPacket_def Let_def split: sum.splits)
  define w :: "16 word" where
    "w = (if length payload \<ge> 1 + n + m + 4 then
            ucast (payload ! (1 + n + m + 2)) OR push_bit 8 (ucast (payload ! (1 + n + m + 2 + 1)))
          else 0)"
  have "parseOKPacket payload = Inr (ok_text a b w)"
    unfolding parseOKPacket_def Let_def ok_text_def w_def
    by (simp only: False if_False l1 l2 sum.case prod.case)
  with assms have "result = ok_text a b w" by simp
  with l1 l2 show ?thesis by blast
qed

lemma set_colors:
  "set COLOR_GREEN = {0x1b, 91, 51, 50, 109}"
  "set COLOR_YELLOW = {0x1b, 91, 51, 109}"
  "set COLOR_CYAN = {0x1b, 91, 51, 54, 109}"
  "set COLOR_DEFAULT = {0x1b, 91, 51, 57, 109}"
  by (auto simp: COLOR_GREEN_def COLOR_YELLOW_def COLOR_CYAN_def COLOR_DEFAULT_def str_def)

lemma f_in_ok_text: "102 \<in> set (ok_text a b w) \<Longrightarrow> a \<noteq> 0"
  using decimal_no_f
  by (auto simp: ok_text_def set_colors str_def split: if_splits)

lemma l_in_ok_text: "108 \<in> set (ok_text a b w) \<Longrightarrow> b \<noteq> 0"
  using decimal_no_l
  by (auto simp: ok_text_def set_colors str_def split: if_splits)

lemma ok_mentions_rows:
  assumes "parseOKPacket payload = Inr result"
    and c: "Contains result (str ''row(s) affected'')"
  shows "\<exists>affectedRows isNull n.
           LengthEncodedInt (drop 1 payload) = Inr (affectedRows, isNull, n) \<and> affectedRows \<noteq> 0"
proof -
  have f: "102 \<in> set result"
    using Contains_set [OF c] by (auto simp: str_def)
  then have "result \<noteq> str ''OK''"
    by (auto simp: str_def)
  with parseOKPacket_Inr [OF assms(1)] f f_in_ok_text show ?thesis
    by blast
qed

lemma ok_mentions_id:
  assumes "parseOKPacket payload = Inr result"
    and c: "Contains result (str ''last insert ID'')"
  shows "\<exists>affectedRows isNull n lastInsertID isNull' n'.
           LengthEncodedInt (drop 1 payload) = Inr (affectedRows, isNull, n)
           \<and> LengthEncodedInt (drop (1 + n) payload) = Inr (lastInsertID, isNull', n')
           \<and> lastInsertID \<noteq> 0"
proof -
  have f: "108 \<in> set result"
    using Contains_set [OF c] by (auto simp: str_def)
  then have "result \<noteq> str ''OK''"
    by (auto simp: str_def)
  with parseOKPacket_Inr [OF assms(1)] f l_in_ok_text show ?thesis
    by blast
qed

text \<open>
  C7. The OK packet \<open>00 03 64 00 00 01 00\<close> is decoded to a text with
  \<open>3 row(s) affected\<close>, \<open>last insert ID: 100\<close> and \<open>1 warning(s)\<close>. For every payload
  that \<open>parseOKPacket\<close> decodes, the text mentions the affected rows (contains
  \<open>row(s) affected\<close>) only when the decoded affected-rows number is not zero, and
  mentions the last insert id (contains \<open>last insert ID\<close>) only when the decoded
  last-insert-id number is not zero.
\<close>

theorem parseOKPacket_mentions:
  "parseOKPacket [0x00, 0x03, 0x64, 0x00, 0x00, 0x01, 0x00] =
     Inr (COLOR_GREEN @ str ''OK'' @ COLOR_DEFAULT
          @ str '', '' @ COLOR_YELLOW @ str ''3 row(s) affected'' @ COLOR_DEFAULT
          @ str '', '' @ COLOR_CYAN @ str ''last insert ID: 100'' @ COLOR_DEFAULT
          @ str '', '' @ COLOR_YELLOW @ str ''1 warning(s)'' @ COLOR_DEFAULT)
   \<and> (\<forall>payload result.
         parseOKPacket payload = Inr result \<longrightarrow>
           (Contains result (str ''row(s) affected'') \<longrightarrow>
              (\<exists>affectedRows isNull n.
                 LengthEncodedInt (drop 1 payload) = Inr (affectedRows, isNull, n)
                 \<and> affectedRows \<noteq> 0))
           \<and> (Contains result (str ''last insert ID'') \<longrightarrow>
                (\<exists>affectedRows isNull n lastInsertID isNull' n'.
                   LengthEncodedInt (drop 1 payload) = Inr (affectedRows, isNull, n)
                   \<and> LengthEncodedInt (drop (1 + n) payload) = Inr (lastInsertID, isNull', n')
                   \<and> lastInsertID \<noteq> 0)))"
proof (intro conjI allI impI)
  show "parseOKPacket [0x00, 0x03, 0x64, 0x00, 0x00, 0x01, 0x00] =
     Inr (COLOR_GREEN @ str ''OK'' @ COLOR_DEFAULT
          @ str '', '' @ COLOR_YELLOW @ str ''3 row(s) affected'' @ COLOR_DEFAULT
          @ str '', '' @ COLOR_CYAN @ str ''last insert ID: 100'' @ COLOR_DEFAULT
          @ str '', '' @ COLOR_YELLOW @ str ''1 warning(s)'' @ COLOR_DEFAULT)"
    by code_simp
next
  fix payload result
  assume "parseOKPacket payload = Inr result" "Contains result (str ''row(s) affected'')"
  then show "\<exists>affectedRows isNull n.
                 LengthEncodedInt (drop 1 payload) = Inr (affectedRows, isNull, n)
                 \<and> affectedRows \<noteq> 0"
    by (rule ok_mentions_rows)
next
  fix payload result
  assume "parseOKPacket payload = Inr result" "Contains result (str ''last insert ID'')"
  then show "\<exists>affectedRows isNull n lastInsertID isNull' n'.
                   LengthEncodedInt (drop 1 payload) = Inr (affectedRows, isNull, n)
                   \<and> LengthEncodedInt (drop (1 + n) payload) = Inr (lastInsertID, isNull', n')
                   \<and> lastInsertID \<noteq> 0"
    by (rule ok_mentions_id)
qed

theorem parseOKPacket_mentions_witness:
  "parseOKPacket [0x00, 0x05, 0x00, 0x00, 0x00, 0x00, 0x00] =
     Inr (COLOR_GREEN @ str ''OK'' @ COLOR_DEFAULT
          @ str '', '' @ COLOR_YELLOW @ str ''5 row(s) affected'' @ COLOR_DEFAULT)
   \<and> Contains (COLOR_GREEN @ str ''OK'' @ COLOR_DEFAULT
          @ str '', '' @ COLOR_YELLOW @ str ''5 row(s) affected'' @ COLOR_DEFAULT)
        (str ''row(s) affected'')
   \<and> (\<exists>affectedRows isNull n.
         LengthEncodedInt (drop 1 [0x00, 0x05, 0x00, 0x00, 0x00, 0x00, 0x00])
           = Inr (affectedRows, isNull, n) \<and> affectedRows \<noteq> 0)"
proof -
  have a: "parseOKPacket [0x00, 0x05, 0x00, 0x00, 0x00, 0x00, 0x00] =
     Inr (COLOR_GREEN @ str ''OK'' @ COLOR_DEFAULT
          @ str '', '' @ COLOR_YELLOW @ str ''5 row(s) affected'' @ COLOR_DEFAULT)"
    by code_simp
  have b: "Contains (COLOR_GREEN @ str ''OK'' @ COLOR_DEFAULT
          @ str '', '' @ COLOR_YELLOW @ str ''5 row(s) affected'' @ COLOR_DEFAULT)
        (str ''row(s) affected'')"
    by code_simp
  from parseOKPacket_mentions a b show ?thesis by blast
qed

section \<open>The two formats of a \<open>COM_QUERY\<close> payload\<close>

lemma LengthEncodedInt_value:
  assumes "payload \<noteq> []" "payload ! 0 \<noteq> 0xfb" "payload ! 0 \<noteq> 0xfc" "payload ! 0 \<noteq> 0xfd"
    "payload ! 0 \<noteq> 0xfe"
  shows "LengthEncodedInt payload = Inr (ucast (payload ! 0), False, 1)"
  using assms by (cases payload) (simp_all add: LengthEncodedInt_def)

lemma LengthEncodedInt_taken:
  assumes "LengthEncodedInt payload = Inr (v, False, n)"
  shows "1 \<le> n \<and> n \<le> length payload"
  using assms
  by (cases payload) (auto simp: LengthEncodedInt_def split: if_splits)

text \<open>
  C2, as the code has it. For a non-empty payload whose first byte lies in
  \<open>0x00..0x1F\<close> or \<open>0xFC..0xFE\<close>, \<open>parseComQuery\<close> reads a length-encoded
  \<open>parameter_count\<close> and then a length-encoded \<open>parameter_set_count\<close>. When both are
  read and the second is not NULL, it fails with the unsupported-parameters error if
  \<open>parameter_count\<close> is not zero, returns the remainder as the query text if
  \<open>parameter_count\<close> is zero and the remainder is not empty, and fails (missing query
  text) if the remainder is empty. When \<open>parameter_set_count\<close> is missing, cut short
  or NULL, it fails. For a first byte \<open>0xFB\<close> (a NULL \<open>parameter_count\<close>) or in
  \<open>0x20..0xFA\<close> the whole payload is the query text. (A first byte \<open>0xFF\<close> is left
  out of the statement.)
\<close>

theorem parseComQuery_formats:
  assumes "payload \<noteq> []"
  shows "((payload ! 0 \<le> 0x1F \<or> (0xFC \<le> payload ! 0 \<and> payload ! 0 \<le> 0xFE))
            \<and> LengthEncodedInt payload = Inr (parameter_count, False, n1)
            \<and> n1 < length payload
            \<and> LengthEncodedInt (drop n1 payload) = Inr (parameter_set_count, False, n2)
          \<longrightarrow> parseComQuery payload =
                (if parameter_count \<noteq> 0 then Inl (ParametersNotSupported parameter_count)
                 else if n1 + n2 < length payload then Inr (drop (n1 + n2) payload)
                 else Inl MissingQueryText))
       \<and> ((payload ! 0 \<le> 0x1F \<or> (0xFC \<le> payload ! 0 \<and> payload ! 0 \<le> 0xFE))
            \<and> LengthEncodedInt payload = Inr (parameter_count, False, n1)
            \<and> (length payload \<le> n1
                 \<or> (\<exists>e. LengthEncodedInt (drop n1 payload) = Inl e)
                 \<or> (\<exists>v n. LengthEncodedInt (drop n1 payload) = Inr (v, True, n)))
          \<longrightarrow> (\<exists>e. parseComQuery payload = Inl e))
       \<and> (payload ! 0 = 0xFB \<or> (0x20 \<le> payload ! 0 \<and> payload ! 0 \<le> 0xFA)
          \<longrightarrow> parseComQuery payload = Inr payload)"
proof (intro conjI impI)
  assume h: "(payload ! 0 \<le> 0x1F \<or> (0xFC \<le> payload ! 0 \<and> payload ! 0 \<le> 0xFE))
            \<and> LengthEncodedInt payload = Inr (parameter_count, False, n1)
            \<and> n1 < length payload
            \<and> LengthEncodedInt (drop n1 payload) = Inr (parameter_set_count, False, n2)"
  then have fb: "payload ! 0 < 0x20 \<or> payload ! 0 \<ge> 0xfb"
    by (auto simp: word_le_nat_alt word_less_nat_alt)
  from h LengthEncodedInt_taken [of payload parameter_count n1] have n1: "n1 \<noteq> 0" by auto
  from assms fb h n1 show "parseComQuery payload =
                (if parameter_count \<noteq> 0 then Inl (ParametersNotSupported parameter_count)
                 else if n1 + n2 < length payload then Inr (drop (n1 + n2) payload)
                 else Inl MissingQueryText)"
    by (auto simp: parseComQuery_def Let_def word_neq_0_conv)
next
  assume h: "(payload ! 0 \<le> 0x1F \<or> (0xFC \<le> payload ! 0 \<and> payload ! 0 \<le> 0xFE))
            \<and> LengthEncodedInt payload = Inr (parameter_count, False, n1)
            \<and> (length payload \<le> n1
                 \<or> (\<exists>e. LengthEncodedInt (drop n1 payload) = Inl e)
                 \<or> (\<exists>v n. LengthEncodedInt (drop n1 payload) = Inr (v, True, n)))"
  then have fb: "payload ! 0 < 0x20 \<or> payload ! 0 \<ge> 0xfb"
    by (auto simp: word_le_nat_alt word_less_nat_alt)
  from h LengthEncodedInt_taken [of payload parameter_count n1] have n1: "n1 \<noteq> 0" by auto
  from assms fb h n1 show "\<exists>e. parseComQuery payload = Inl e"
    by (auto simp: parseComQuery_def Let_def)
next
  assume h: "payload ! 0 = 0xFB \<or> (0x20 \<le> payload ! 0 \<and> payload ! 0 \<le> 0xFA)"
  show "parseComQuery payload = Inr payload"
  proof (cases "payload ! 0 = 0xFB")
    case True
    with assms have "LengthEncodedInt payload = Inr (0, True, 1)"
      by (cases payload) (simp_all add: LengthEncodedInt_def)
    with assms True show ?thesis
      by (simp add: parseComQuery_def Let_def)
  next
    case False
    with h have "\<not> (payload ! 0 < 0x20 \<or> payload ! 0 \<ge> 0xfb)"
      by (auto simp: word_le_nat_alt word_less_nat_alt)
    with assms show ?thesis
      by (simp add: parseComQuery_def Let_def)
  qed
qed

theorem parseComQuery_formats_witness:
  "parseComQuery (0 # 1 # str ''select 1'') = Inr (str ''select 1'')
   \<and> parseComQuery (1 # 1 # str ''select ?'') = Inl (ParametersNotSupported 1)
   \<and> parseComQuery [0, 1] = Inl MissingQueryText
   \<and> parseComQuery [0] = Inl MissingParameterSetCount
   \<and> parseComQuery (str ''select 1'') = Inr (str ''select 1'')"
proof -
  have l1: "LengthEncodedInt (0 # 1 # str ''select 1'') = Inr (0, False, 1)"
    "LengthEncodedInt (drop 1 (0 # 1 # str ''select 1'')) = Inr (1, False, 1)"
    "LengthEncodedInt (1 # 1 # str ''select ?'') = Inr (1, False, 1)"
    "LengthEncodedInt (drop 1 (1 # 1 # str ''select ?'')) = Inr (1, False, 1)"
    "LengthEncodedInt [0, 1] = Inr (0, False, 1)"
    "LengthEncodedInt (drop 1 [0, 1]) = Inr (1, False, 1)"
    "LengthEncodedInt [0] = Inr (0, False, 1)"
    by (simp_all add: LengthEncodedInt_def str_def)
  have s: "str ''select 1'' ! 0 = 0x73" "str ''select 1'' \<noteq> []"
    "drop 2 (0 # 1 # str ''select 1'') = str ''select 1''"
    by (simp_all add: str_def)
  from parseComQuery_formats [of "0 # 1 # str ''select 1''" 0 1 1 1]
  have a: "parseComQuery (0 # 1 # str ''select 1'') = Inr (str ''select 1'')"
    using l1 s by (simp add: str_def)
  from parseComQuery_formats [of "1 # 1 # str ''select ?''" 1 1 1 1]
  have b: "parseComQuery (1 # 1 # str ''select ?'') = Inl (ParametersNotSupported 1)"
    using l1 by (simp add: str_def)
  from parseComQuery_formats [of "[0, 1]" 0 1 1 1]
  have c: "parseComQuery [0, 1] = Inl MissingQueryText"
    using l1 by simp
  from parseComQuery_formats [of "[0]" 0 1]
  have "\<exists>e. parseComQuery [0] = Inl e"
    using l1 by simp
  then have d: "parseComQuery [0] = Inl MissingParameterSetCount"
    by (simp add: parseComQuery_def l1)
  from parseComQuery_formats [of "str ''select 1''"]
  have e: "parseComQuery (str ''select 1'') = Inr (str ''select 1'')"
    using s by simp
  from a b c d e show ?thesis by simp
qed

text \<open>
  C2 as stated fails: on \<open>00 01\<close> the first byte is in \<open>0x00..0x1F\<close>, both counts
  are read and \<open>parameter_count\<close> is zero, but the decoder fails instead of returning
  the (empty) remainder; on \<open>FB 41\<close> the first byte is in \<open>0xFB..0xFE\<close>, but the whole
  payload is returned; on \<open>01\<close> the failure is the missing \<open>parameter_set_count\<close>, not
  the unsupported parameters.
\<close>

theorem parseComQuery_counterexample:
  "[0x00, 0x01 :: byte] \<noteq> [] \<and> [0x00, 0x01 :: byte] ! 0 \<le> 0x1F
   \<and> LengthEncodedInt [0x00, 0x01] = Inr (0, False, 1)
   \<and> LengthEncodedInt (drop 1 [0x00, 0x01]) = Inr (1, False, 1)
   \<and> parseComQuery [0x00, 0x01] = Inl MissingQueryText
   \<and> parseComQuery [0x00, 0x01] \<noteq> Inr (drop 2 [0x00, 0x01])
   \<and> 0xFB \<le> [0xFB, 0x41 :: byte] ! 0 \<and> [0xFB, 0x41 :: byte] ! 0 \<le> 0xFE
   \<and> parseComQuery [0xFB, 0x41] = Inr [0xFB, 0x41]
   \<and> parseComQuery [0x01] = Inl MissingParameterSetCount"
  by (simp add: parseComQuery_def LengthEncodedInt_def)

section \<open>Minimum, average and maximum of a reservoir\<close>

text \<open>The slots of a reservoir that hold a sample: zero means empty.\<close>

definition nonzero_slots :: "64 word list \<Rightarrow> 64 word list" where
  "nonzero_slots timings = filter (\<lambda>v. v \<noteq> 0) timings"

lemma sum_nonzero_slots:
  "sum_list (map unat (nonzero_slots xs)) = sum_list (map unat xs)"
  by (induction xs) (simp_all add: nonzero_slots_def)

lemma length_le_sum_nonzero:
  "length (nonzero_slots xs) \<le> sum_list (map unat xs)"
proof (induction xs)
  case Nil
  show ?case by (simp add: nonzero_slots_def)
next
  case (Cons x xs)
  have "x \<noteq> 0 \<Longrightarrow> 1 \<le> unat x"
    by (simp add: unat_gt_0 Suc_leI)
  with Cons show ?case
    by (auto simp: nonzero_slots_def)
qed

lemma sum_ge_length_mult:
  "(\<forall>v \<in> set ys. m \<le> f v) \<Longrightarrow> length ys * m \<le> sum_list (map f ys)" for m :: nat
  by (induction ys) auto

lemma sum_le_length_mult:
  "(\<forall>v \<in> set ys. f v \<le> m) \<Longrightarrow> sum_list (map f ys) \<le> length ys * m" for m :: nat
  by (induction ys) auto

lemma unat_add64: "unat a + unat b < 2 ^ 64 \<Longrightarrow> unat (a + b :: 64 word) = unat a + unat b"
  by (simp add: unat_word_ariths)

lemma fold_calculateTimes_step:
  assumes "sum_list (map unat xs) < 2 ^ 64"
    and "fold calculateTimes_step xs (0, 0, 0, 0, False) = (c, t, mn, mx, h)"
  shows "unat c = length (nonzero_slots xs) \<and> unat t = sum_list (map unat xs)
         \<and> h = (nonzero_slots xs \<noteq> [])
         \<and> (\<forall>v \<in> set (nonzero_slots xs). mn \<le> v \<and> v \<le> mx)"
  using assms
proof (induction xs arbitrary: c t mn mx h rule: rev_induct)
  case Nil
  then show ?case by (simp add: nonzero_slots_def)
next
  case (snoc x xs)
  obtain c0 t0 mn0 mx0 h0
    where f0: "fold calculateTimes_step xs (0, 0, 0, 0, False) = (c0, t0, mn0, mx0, h0)"
    by (metis prod_cases5)
  from snoc.prems(1) have s0: "sum_list (map unat xs) + unat x < 2 ^ 64" by simp
  then have s1: "sum_list (map unat xs) < 2 ^ 64" by simp
  note ih = snoc.IH [OF s1 f0]
  from snoc.prems(2) f0 have st: "calculateTimes_step x (c0, t0, mn0, mx0, h0) = (c, t, mn, mx, h)"
    by simp
  show ?case
  proof (cases "x = 0")
    case True
    with st ih show ?thesis
      by (simp add: calculateTimes_step_def nonzero_slots_def)
  next
    case False
    from False have x1: "1 \<le> unat x"
      by (simp add: unat_gt_0 Suc_leI)
    from ih length_le_sum_nonzero [of xs] s0 x1 have "unat c0 + unat (1 :: 64 word) < 2 ^ 64"
      by simp
    then have c1: "unat (c0 + 1) = unat c0 + 1"
      using unat_add64 [of c0 1] by simp
    from ih s0 have t1: "unat (t0 + x) = unat t0 + unat x"
      using unat_add64 [of t0 x] by simp
    from st False have e: "c = c0 + 1" "t = t0 + x" "h = True"
      "mn = (if x < mn0 \<or> \<not> h0 then x else mn0)" "mx = (if x > mx0 then x else mx0)"
      by (auto simp: calculateTimes_step_def Let_def split: if_splits)
    have nz: "nonzero_slots (xs @ [x]) = nonzero_slots xs @ [x]"
      using False by (simp add: nonzero_slots_def)
    from ih have b: "\<forall>v \<in> set (nonzero_slots xs). mn0 \<le> v \<and> v \<le> mx0"
      and h0: "h0 = (nonzero_slots xs \<noteq> [])" by simp_all
    have "\<forall>v \<in> set (nonzero_slots xs @ [x]). mn \<le> v \<and> v \<le> mx"
      using b h0 unfolding e by (auto simp: not_less)
    with ih c1 t1 e nz show ?thesis by simp
  qed
qed

lemma calculateTimes_ordered:
  assumes sum: "sum_list (map unat timings) < 2 ^ 64"
    and nz: "\<exists>v \<in> set timings. v \<noteq> 0"
    and res: "calculateTimes timings = (fmin, favg, fmax)"
  shows "fmin \<le> favg \<and> favg \<le> fmax"
proof -
  obtain c t mn mx h
    where f: "fold calculateTimes_step timings (0, 0, 0, 0, False) = (c, t, mn, mx, h)"
    by (metis prod_cases5)
  note inv = fold_calculateTimes_step [OF sum f]
  let ?nz = "nonzero_slots timings"
  let ?n = "length ?nz"
  let ?S = "sum_list (map unat timings)"
  from nz have ne: "?nz \<noteq> []"
    by (auto simp: nonzero_slots_def filter_empty_conv)
  then have npos: "0 < ?n" by simp
  with inv have "unat c \<noteq> 0" by simp
  then have "c \<noteq> 0" by auto
  then have cpos: "c > 0" by (simp add: word_neq_0_conv)
  have avg: "unat (t div c) = ?S div ?n"
    using inv by (simp add: unat_div)
  have "\<forall>v \<in> set ?nz. unat mn \<le> unat v"
    using inv by (simp add: word_le_nat_alt)
  from sum_ge_length_mult [OF this] have lo: "?n * unat mn \<le> ?S"
    by (simp add: sum_nonzero_slots)
  have "\<forall>v \<in> set ?nz. unat v \<le> unat mx"
    using inv by (simp add: word_le_nat_alt)
  from sum_le_length_mult [OF this] have hi: "?S \<le> ?n * unat mx"
    by (simp add: sum_nonzero_slots)
  from lo npos have a: "unat mn \<le> ?S div ?n"
    by (simp add: less_eq_div_iff_mult_less_eq mult.commute)
  from hi npos have b: "?S div ?n \<le> unat mx"
    by (metis div_le_mono nonzero_mult_div_cancel_left less_numeral_extra(3))
  from res f cpos have r: "fmin = real (unat mn) / 1000000" "favg = real (unat (t div c)) / 1000000"
    "fmax = real (unat mx) / 1000000"
    by (simp_all add: calculateTimes_def Let_def)
  have ra: "real (unat mn) \<le> real (unat (t div c))"
    unfolding avg using a by (simp only: of_nat_le_iff)
  have rb: "real (unat (t div c)) \<le> real (unat mx)"
    unfolding avg using b by (simp only: of_nat_le_iff)
  have "real (unat mn) / 1000000 \<le> real (unat (t div c)) / 1000000"
    by (rule divide_right_mono [OF ra]) simp
  moreover have "real (unat (t div c)) / 1000000 \<le> real (unat mx) / 1000000"
    by (rule divide_right_mono [OF rb]) simp
  ultimately show ?thesis
    unfolding r by (rule conjI)
qed


lemma calculateTimes_step_zero: "calculateTimes_step 0 st = st"
  by (simp add: calculateTimes_step_def split: prod.splits)

lemma fold_calculateTimes_zeros: "(calculateTimes_step 0 ^^ n) st = st"
  by (induction n) (simp_all add: calculateTimes_step_zero)

text \<open>
  C9, as the code has it. For a reservoir with at least one nonzero slot whose slots
  add up to less than \<open>2^64\<close> (so that the \<open>uint64\<close> sum \<open>total\<close> does not wrap),
  the three results of \<open>calculateTimes\<close> satisfy \<open>min \<le> avg \<le> max\<close>.
\<close>

theorem calculateTimes_min_avg_max:
  assumes "sum_list (map unat timings) < 2 ^ 64"
    and "\<exists>v \<in> set timings. v \<noteq> 0"
  shows "case calculateTimes timings of (fmin, favg, fmax) \<Rightarrow> fmin \<le> favg \<and> favg \<le> fmax"
proof -
  obtain fmin favg fmax where r: "calculateTimes timings = (fmin, favg, fmax)"
    by (metis prod_cases3)
  from calculateTimes_ordered [OF assms r] r show ?thesis by simp
qed

theorem calculateTimes_min_avg_max_witness:
  "sum_list (map unat ([1000000, 5000000, 10000000] @ replicate 9997 (0 :: 64 word))) < 2 ^ 64
   \<and> (\<exists>v \<in> set ([1000000, 5000000, 10000000] @ replicate 9997 (0 :: 64 word)). v \<noteq> 0)
   \<and> calculateTimes ([1000000, 5000000, 10000000] @ replicate 9997 0)
       = (1, 5333333 / 1000000, 10)"
proof -
  have a: "sum_list (map unat ([1000000, 5000000, 10000000] @ replicate 9997 (0 :: 64 word)))
           < 2 ^ 64"
    by (simp add: sum_list_replicate)
  have b: "\<exists>v \<in> set ([1000000, 5000000, 10000000] @ replicate 9997 (0 :: 64 word)). v \<noteq> 0"
    by simp
  have c: "calculateTimes ([1000000, 5000000, 10000000] @ replicate 9997 0)
       = (1, 5333333 / 1000000, 10)"
    by (simp add: calculateTimes_def fold_calculateTimes_zeros calculateTimes_step_def)
  from calculateTimes_min_avg_max [OF a b] a b c show ?thesis by simp
qed

text \<open>
  C9 as stated fails when \<open>total\<close> wraps: three samples of \<open>2^63 - 1\<close> nanoseconds
  (the largest \<open>time.Duration\<close>) in a reservoir of \<open>TIME_BUCKETS\<close> slots add up to
  \<open>2^63 - 3\<close> modulo \<open>2^64\<close>, and the average is below the minimum.
\<close>

theorem calculateTimes_counterexample:
  "length (replicate 3 (0x7FFFFFFFFFFFFFFF :: 64 word) @ replicate 9997 0) = TIME_BUCKETS
   \<and> (\<exists>v \<in> set (replicate 3 (0x7FFFFFFFFFFFFFFF :: 64 word) @ replicate 9997 0). v \<noteq> 0)
   \<and> calculateTimes (replicate 3 0x7FFFFFFFFFFFFFFF @ replicate 9997 0)
       = (9223372036854775807 / 1000000, 3074457345618258601 / 1000000,
          9223372036854775807 / 1000000)
   \<and> \<not> ((9223372036854775807 / 1000000 :: real) \<le> 3074457345618258601 / 1000000)"
proof -
  have r3: "replicate 3 x = [x, x, x]" for x :: "64 word"
    by (simp add: numeral_3_eq_3)
  have c: "calculateTimes (replicate 3 0x7FFFFFFFFFFFFFFF @ replicate 9997 0)
       = (9223372036854775807 / 1000000, 3074457345618258601 / 1000000,
          9223372036854775807 / 1000000)"
    unfolding r3
    by (simp add: calculateTimes_def fold_calculateTimes_zeros calculateTimes_step_def)
  show ?thesis
    using c by (simp add: TIME_BUCKETS_def)
qed

section \<open>The outstanding-request timestamp of a flow\<close>

text \<open>
  Whether a request is outstanding after a flow's outcomes, given whether one was
  before: a recorded command sets it, a paired response clears it.
\<close>

fun track :: "bool \<Rightarrow> outcome list \<Rightarrow> bool" where
  "track b [] = b"
| "track b (ReqRecorded pType # es) = track True es"
| "track b (RespPaired # es) = track False es"
| "track b (e # es) = track b es"

definition outstanding :: "outcome list \<Rightarrow> bool" where
  "outstanding es = track False es"

text \<open>
  The same as the claim words it: only a recorded \<open>COM_QUERY\<close> sets it.
\<close>

fun track_query :: "bool \<Rightarrow> outcome list \<Rightarrow> bool" where
  "track_query b [] = b"
| "track_query b (ReqRecorded pType # es) = track_query (if pType = COM_QUERY then True else b) es"
| "track_query b (RespPaired # es) = track_query False es"
| "track_query b (e # es) = track_query b es"

definition query_outstanding :: "outcome list \<Rightarrow> bool" where
  "query_outstanding es = track_query False es"

text \<open>The outcomes of one flow in a trace, and whether its timestamp is set in a state.\<close>

definition flow_trace :: "bytes \<Rightarrow> (bytes \<times> outcome) list \<Rightarrow> outcome list" where
  "flow_trace src tr = map snd (filter (\<lambda>p. fst p = src) tr)"

definition flow_flag :: "globals \<Rightarrow> bytes \<Rightarrow> bool" where
  "flow_flag g src = (case chmap g src of None \<Rightarrow> False | Some rs \<Rightarrow> reqSent rs \<noteq> None)"

lemma processRequest_reqSent:
  assumes "processRequest cfg g rs seg = Inr (g', rs', out)"
  shows "(reqSent rs' \<noteq> None) = track (reqSent rs \<noteq> None) [out] \<and> chmap g' = chmap g"
  using assms
  by (auto simp: processRequest_def Let_def split: prod.splits sum.splits if_splits option.splits)

lemma processResponse_reqSent:
  assumes "processResponse cfg g rs seg = (g', rs', out)"
  shows "(reqSent rs' \<noteq> None) = track (reqSent rs \<noteq> None) [out] \<and> chmap g' = chmap g
         \<and> (reqSent rs \<noteq> None \<longrightarrow> reqSent rs' = None \<and> out = RespPaired)"
  using assms
  by (auto simp: processResponse_def Let_def split: option.splits)


lemma processPacket_reqSent:
  assumes "processPacket cfg g rs seg = Inr (g', rs', out)"
  shows "(reqSent rs' \<noteq> None) = track (reqSent rs \<noteq> None) [out] \<and> chmap g' = chmap g"
proof (cases "request seg")
  case True
  with assms obtain g1 where "processRequest cfg g1 rs seg = Inr (g', rs', out)" "chmap g1 = chmap g"
    by (auto simp: processPacket_def Let_def)
  with processRequest_reqSent [of cfg g1 rs seg g' rs' out] show ?thesis by simp
next
  case False
  with assms obtain g1 where "processResponse cfg g1 rs seg = (g', rs', out)" "chmap g1 = chmap g"
    by (auto simp: processPacket_def Let_def)
  with processResponse_reqSent [of cfg g1 rs seg g' rs' out] show ?thesis by simp
qed

lemma handlePacket_flag:
  assumes "handlePacket cfg g src seg = Inr (g', out)"
  shows "flow_flag g' s =
           (if s = src then track (flow_flag g s) (case out of None \<Rightarrow> [] | Some ou \<Rightarrow> [ou])
            else flow_flag g s)"
proof (cases "length (data seg) \<le> 0")
  case True
  with assms show ?thesis by (simp add: handlePacket_def)
next
  case False
  show ?thesis
  proof (cases "chmap g src")
    case (Some rs)
    with assms False obtain g1 rs1 ou
      where p: "processPacket cfg g rs seg = Inr (g1, rs1, ou)"
        and e: "g' = g1\<lparr>chmap := (chmap g1)(src \<mapsto> rs1)\<rparr>" "out = Some ou"
      by (auto simp: handlePacket_def split: sum.splits)
    from processPacket_reqSent [OF p] Some e show ?thesis
      by (simp add: flow_flag_def)
  next
    case None
    with assms False obtain i where i: "Index src (str '':'') = Some i"
      by (auto simp: handlePacket_def split: option.splits)
    define rs0 where "rs0 = \<lparr>hostPort = src, srcIP = slice 0 i src, synced = False,
                             reqBuffer = [], respBuffer = None, reqSent = None,
                             reqTimes = replicate TIME_BUCKETS 0, qBytes = 0,
                             qData = None, qText = []\<rparr>"
    from assms False None i obtain g1 rs1 ou
      where p: "processPacket cfg (g\<lparr>streams := streams g + 1\<rparr>) rs0 seg = Inr (g1, rs1, ou)"
        and e: "g' = g1\<lparr>chmap := (chmap g1)(src \<mapsto> rs1)\<rparr>" "out = Some ou"
      by (auto simp: handlePacket_def rs0_def split: sum.splits)
    from processPacket_reqSent [OF p] None e show ?thesis
      by (simp add: flow_flag_def rs0_def)
  qed
qed

lemma track_append: "track b (xs @ ys) = track (track b xs) ys"
  by (induction b xs rule: track.induct) simp_all

lemma run_packets_flag:
  assumes "run_packets cfg g packets = Inr (g', tr)"
  shows "flow_flag g' s = track (flow_flag g s) (flow_trace s tr)"
  using assms
proof (induction packets arbitrary: g g' tr)
  case Nil
  then show ?case by (simp add: flow_trace_def)
next
  case (Cons p packets)
  obtain src seg where p: "p = (src, seg)" by (cases p)
  from Cons.prems p obtain g1 out tr1
    where h: "handlePacket cfg g src seg = Inr (g1, out)"
      and r: "run_packets cfg g1 packets = Inr (g', tr1)"
      and t: "tr = (case out of None \<Rightarrow> tr1 | Some ou \<Rightarrow> (src, ou) # tr1)"
    by (auto split: sum.splits)
  from Cons.IH [OF r] have ih: "flow_flag g' s = track (flow_flag g1 s) (flow_trace s tr1)" .
  have "flow_trace s tr =
          (if s = src then (case out of None \<Rightarrow> [] | Some ou \<Rightarrow> [ou]) else []) @ flow_trace s tr1"
    unfolding t by (cases out) (auto simp: flow_trace_def)
  with ih handlePacket_flag [OF h, of s] show ?case
    by (simp add: track_append)
qed

text \<open>
  A client and its packets: the query \<open>select 1\<close> (whole, and cut after 8 bytes), a
  \<open>COM_PING\<close>, and an OK response.
\<close>

definition client :: bytes where "client = str ''10.0.0.1:5000''"

definition select_packet :: bytes where
  "select_packet = [9, 0, 0, 0, 3] @ str ''select 1''"

definition ping_packet :: bytes where
  "ping_packet = [1, 0, 0, 0, 14]"

definition ok_packet :: bytes where
  "ok_packet = [7, 0, 0, 1, 0, 0, 0, 2, 0, 0, 0]"

lemma default_config_simps:
  "dirty default_config = False" "verbose default_config = False" "noclean default_config = False"
  "format default_config = [Tag F_SOURCE, Lit (str '':''), Tag F_QUERY]"
  by (simp_all add: default_config_def)

lemma example_values:
  "cleanupQuery default_config (str ''select 1'') = Inr (str ''select ?'')"
  "cleanupQuery default_config [] = Inr []"
  "Index client (str '':'') = Some 8"
  "carvePacket select_packet = (Inr (3, str ''select 1''), [])"
  "carvePacket ping_packet = (Inr (14, []), [])"
  "parseComQuery (str ''select 1'') = Inr (str ''select 1'')"
  "length select_packet = 13" "length ping_packet = 5" "length ok_packet = 11"
  by code_simp+

definition select_head :: bytes where
  "select_head = [9, 0, 0, 0, 3] @ str ''sel''"

definition select_tail :: bytes where
  "select_tail = str ''ect 1''"

lemma split_values:
  "carvePacket select_head = (Inl IncompletePacket, select_head)"
  "carvePacket select_tail = (Inl IncompletePacket, select_tail)"
  "length select_head = 8" "length select_tail = 5"
  "select_head @ select_tail = select_packet"
  by code_simp+

lemmas run_defs =
  handlePacket_def processPacket_def processRequest_def processResponse_def
  start_globals_def default_config_simps example_values split_values formatQueryText_def
  COM_QUERY_def Let_def

text \<open>
  The flow as the specification describes it, from the segments alone: whether the flow is
  synced, whether a response segment is waiting unpaired, and whether a request is
  outstanding.
\<close>

datatype flow_state = Flow (in_sync: bool) (resp_pending: bool) (awaiting: bool)

text \<open>
  A request segment frames a \<open>COM_QUERY\<close>; and it records its command, on a flow that is
  synced or not: the segment frames a packet, and the command is a \<open>COM_QUERY\<close> whose payload
  decodes, or the flow is synced.
\<close>

definition frames_query :: "segment \<Rightarrow> bool" where
  "frames_query seg =
     (case fst (carvePacket (data seg)) of
        Inl err \<Rightarrow> False
      | Inr (pType, pData) \<Rightarrow> pType = COM_QUERY)"

definition records :: "bool \<Rightarrow> segment \<Rightarrow> bool" where
  "records sy seg =
     (case fst (carvePacket (data seg)) of
        Inl err \<Rightarrow> False
      | Inr (pType, pData) \<Rightarrow>
          if pType = COM_QUERY then (case parseComQuery pData of Inl err \<Rightarrow> False | Inr q \<Rightarrow> True)
          else sy)"

text \<open>
  One segment. A request segment after an unpaired response finds the flow unsynced; a framed
  \<open>COM_QUERY\<close> syncs the flow; a recorded command is outstanding. A response segment is paired
  with the outstanding request, which is outstanding no more, or waits unpaired.
\<close>

fun flow_step :: "flow_state \<Rightarrow> segment \<Rightarrow> flow_state" where
  "flow_step (Flow sy rp aw) seg =
     (if request seg then
        Flow ((sy \<and> \<not> rp) \<or> frames_query seg) False (aw \<or> records (sy \<and> \<not> rp) seg)
      else if aw then Flow sy False False
      else Flow sy True False)"

text \<open>
  The segments of one flow among the captured packets (an empty payload is dropped before the
  flow sees it), and the flow after its segments, from the start.
\<close>

definition flow_segments :: "bytes \<Rightarrow> (bytes \<times> segment) list \<Rightarrow> segment list" where
  "flow_segments src packets =
     map snd (filter (\<lambda>p. fst p = src \<and> data (snd p) \<noteq> []) packets)"

definition flow_spec :: "segment list \<Rightarrow> flow_state" where
  "flow_spec segs = foldl flow_step (Flow False False False) segs"

text \<open>What the specification sees of the \<open>source\<close> of the code.\<close>

definition view :: "source \<Rightarrow> flow_state" where
  "view rs = Flow (synced rs) (respBuffer rs \<noteq> None) (reqSent rs \<noteq> None)"

definition view_of :: "globals \<Rightarrow> bytes \<Rightarrow> flow_state" where
  "view_of g src = (case chmap g src of None \<Rightarrow> Flow False False False | Some rs \<Rightarrow> view rs)"

lemma processRequest_view:
  assumes "processRequest cfg g rs seg = Inr (g', rs', out)" and "request seg"
  shows "view rs' = flow_step (view rs) seg \<and> chmap g' = chmap g"
  using assms
  by (auto simp: processRequest_def Let_def view_def frames_query_def records_def
      split: prod.splits sum.splits if_splits option.splits)

lemma processResponse_view:
  assumes "processResponse cfg g rs seg = (g', rs', out)" and "\<not> request seg"
  shows "view rs' = flow_step (view rs) seg \<and> chmap g' = chmap g"
  using assms
  by (auto simp: processResponse_def Let_def view_def split: option.splits)

lemma processPacket_view:
  assumes "processPacket cfg g rs seg = Inr (g', rs', out)"
  shows "view rs' = flow_step (view rs) seg \<and> chmap g' = chmap g"
proof (cases "request seg")
  case True
  with assms obtain g1 where "processRequest cfg g1 rs seg = Inr (g', rs', out)" "chmap g1 = chmap g"
    by (auto simp: processPacket_def Let_def)
  with processRequest_view [of cfg g1 rs seg g' rs' out] True show ?thesis by simp
next
  case False
  with assms obtain g1 where "processResponse cfg g1 rs seg = (g', rs', out)" "chmap g1 = chmap g"
    by (auto simp: processPacket_def Let_def)
  with processResponse_view [of cfg g1 rs seg g' rs' out] False show ?thesis by simp
qed

lemma handlePacket_view:
  assumes "handlePacket cfg g src seg = Inr (g', out)"
  shows "view_of g' s =
           (if s = src \<and> data seg \<noteq> [] then flow_step (view_of g s) seg else view_of g s)"
proof (cases "length (data seg) \<le> 0")
  case True
  with assms show ?thesis by (simp add: handlePacket_def)
next
  case False
  then have d: "data seg \<noteq> []" by simp
  show ?thesis
  proof (cases "chmap g src")
    case (Some rs)
    with assms False obtain g1 rs1 ou
      where p: "processPacket cfg g rs seg = Inr (g1, rs1, ou)"
        and e: "g' = g1\<lparr>chmap := (chmap g1)(src \<mapsto> rs1)\<rparr>"
      by (auto simp: handlePacket_def split: sum.splits)
    from processPacket_view [OF p] Some e d show ?thesis
      by (simp add: view_of_def)
  next
    case None
    with assms False obtain i where i: "Index src (str '':'') = Some i"
      by (auto simp: handlePacket_def split: option.splits)
    define rs0 where "rs0 = \<lparr>hostPort = src, srcIP = slice 0 i src, synced = False,
                             reqBuffer = [], respBuffer = None, reqSent = None,
                             reqTimes = replicate TIME_BUCKETS 0, qBytes = 0,
                             qData = None, qText = []\<rparr>"
    from assms False None i obtain g1 rs1 ou
      where p: "processPacket cfg (g\<lparr>streams := streams g + 1\<rparr>) rs0 seg = Inr (g1, rs1, ou)"
        and e: "g' = g1\<lparr>chmap := (chmap g1)(src \<mapsto> rs1)\<rparr>"
      by (auto simp: handlePacket_def rs0_def split: sum.splits)
    have "view rs0 = Flow False False False" by (simp add: view_def rs0_def)
    with processPacket_view [OF p] None e d show ?thesis
      by (simp add: view_of_def)
  qed
qed

lemma run_packets_view:
  assumes "run_packets cfg g packets = Inr (g', tr)"
  shows "view_of g' s = foldl flow_step (view_of g s) (flow_segments s packets)"
  using assms
proof (induction packets arbitrary: g g' tr)
  case Nil
  then show ?case by (simp add: flow_segments_def)
next
  case (Cons p packets)
  obtain src seg where p: "p = (src, seg)" by (cases p)
  from Cons.prems p obtain g1 out tr1
    where h: "handlePacket cfg g src seg = Inr (g1, out)"
      and r: "run_packets cfg g1 packets = Inr (g', tr1)"
    by (auto split: sum.splits)
  from Cons.IH [OF r] handlePacket_view [OF h, of s] show ?case
    by (simp add: flow_segments_def p)
qed


text \<open>
  C1, as the code has it. After every run of packets from the start of the program, for
  every flow: \<open>reqSent\<close> is set if and only if a command has been recorded on the flow and no
  response segment has been paired since, where a request segment records its command when
  it frames a packet and the command is a \<open>COM_QUERY\<close> whose payload decodes, or a command of
  any type and the flow is synced. The flow is synced from a framed \<open>COM_QUERY\<close> on, until
  a request segment follows a response segment that was not paired; \<open>synced\<close> in the code is
  this. In the trace of the run, the flow's outcomes say the same of \<open>reqSent\<close>. Processing a
  response segment while \<open>reqSent\<close> is set pairs the response and clears \<open>reqSent\<close>.
\<close>

theorem reqSent_outstanding:
  assumes "run_packets cfg start_globals packets = Inr (g, tr)"
    and "chmap g src = Some rs"
  shows "(reqSent rs \<noteq> None \<longleftrightarrow> awaiting (flow_spec (flow_segments src packets)))
         \<and> (synced rs \<longleftrightarrow> in_sync (flow_spec (flow_segments src packets)))
         \<and> (reqSent rs \<noteq> None \<longleftrightarrow> outstanding (flow_trace src tr))
         \<and> (\<forall>g0 rs0 seg. reqSent rs0 \<noteq> None \<longrightarrow>
               (case processResponse cfg g0 rs0 seg of
                  (g1, rs1, out) \<Rightarrow> reqSent rs1 = None \<and> out = RespPaired))"
proof (intro conjI)
  have "view rs = flow_spec (flow_segments src packets)"
    using run_packets_view [OF assms(1), of src] assms(2)
    by (simp add: view_of_def flow_spec_def start_globals_def)
  then show "reqSent rs \<noteq> None \<longleftrightarrow> awaiting (flow_spec (flow_segments src packets))"
    and "synced rs \<longleftrightarrow> in_sync (flow_spec (flow_segments src packets))"
    by (simp_all add: view_def flip: \<open>view rs = flow_spec (flow_segments src packets)\<close>)
next
  from run_packets_flag [OF assms(1), of src] assms(2)
  show "reqSent rs \<noteq> None \<longleftrightarrow> outstanding (flow_trace src tr)"
    by (simp add: flow_flag_def outstanding_def start_globals_def)
next
  show "\<forall>g0 rs0 seg. reqSent rs0 \<noteq> None \<longrightarrow>
               (case processResponse cfg g0 rs0 seg of
                  (g1, rs1, out) \<Rightarrow> reqSent rs1 = None \<and> out = RespPaired)"
    using processResponse_reqSent by (auto split: prod.splits)
qed

definition example_run :: "(bytes \<times> segment) list" where
  "example_run =
     [(client, \<lparr>request = True, data = ping_packet, now = 5, randn = 0\<rparr>),
      (client, \<lparr>request = True, data = select_packet, now = 10, randn = 0\<rparr>),
      (client, \<lparr>request = False, data = ok_packet, now = 20, randn = 7\<rparr>),
      (client, \<lparr>request = True, data = select_packet, now = 30, randn = 0\<rparr>)]"

lemma example_run_spec: "flow_spec (flow_segments client example_run) = Flow True False True"
  by code_simp

text \<open>
  A flow that starts with a \<open>COM_PING\<close>, which is not recorded on the unsynced flow, then
  sends a query, gets its response and sends the query again.
\<close>

theorem reqSent_outstanding_witness:
  "\<exists>g tr rs.
     run_packets default_config start_globals example_run = Inr (g, tr)
     \<and> chmap g client = Some rs
     \<and> flow_trace client tr = [ReqUnsynced, ReqRecorded 3, RespPaired, ReqRecorded 3]
     \<and> reqSent rs = Some 30 \<and> synced rs
     \<and> flow_spec (flow_segments client example_run) = Flow True False True
     \<and> outstanding (flow_trace client tr)"
proof -
  let ?run = "run_packets default_config start_globals example_run"
  have e: "map_sum id (\<lambda>(g, tr). (flow_trace client tr, map_option reqSent (chmap g client))) ?run
           = Inr ([ReqUnsynced, ReqRecorded 3, RespPaired, ReqRecorded 3], Some (Some 30))"
    by (simp add: example_run_def run_defs flow_trace_def)
  then obtain g tr where r: "?run = Inr (g, tr)"
    and t: "flow_trace client tr = [ReqUnsynced, ReqRecorded 3, RespPaired, ReqRecorded 3]"
    and m: "map_option reqSent (chmap g client) = Some (Some 30)"
    by (cases ?run) auto
  from m obtain rs where c: "chmap g client = Some rs" and s: "reqSent rs = Some 30"
    by auto
  from reqSent_outstanding [OF r c] s example_run_spec
  have "outstanding (flow_trace client tr)" "synced rs"
    by simp_all
  with r c t s example_run_spec show ?thesis by blast
qed


text \<open>
  C1 as stated fails: on a synced flow a \<open>COM_PING\<close> is recorded like a query. After a
  query, its response and a ping, \<open>reqSent\<close> is set, but the only \<open>COM_QUERY\<close> recorded
  has had its response paired.
\<close>

theorem reqSent_counterexample:
  "map_sum id
     (\<lambda>(g, tr). (flow_trace client tr, map_option reqSent (chmap g client),
                 query_outstanding (flow_trace client tr)))
     (run_packets default_config start_globals
        [(client, \<lparr>request = True, data = select_packet, now = 10, randn = 0\<rparr>),
         (client, \<lparr>request = False, data = ok_packet, now = 20, randn = 7\<rparr>),
         (client, \<lparr>request = True, data = ping_packet, now = 30, randn = 0\<rparr>)])
   = Inr ([ReqRecorded 3, RespPaired, ReqRecorded 14], Some (Some 30), False)"
  by (simp add: run_defs flow_trace_def query_outstanding_def)


section \<open>A command split over two request segments\<close>

text \<open>
  C5. The claim is that a request payload is appended to the request buffer of the flow,
  so that a command split over two segments is framed when its bytes are complete. In
  the code \<open>processRequest\<close> assigns \<open>rs.reqBuffer = data\<close>: of the query \<open>select 1\<close>,
  split after 8 bytes, the second segment replaces the first in the buffer, no command
  is framed and nothing is recorded; the same bytes in one segment are recorded.
\<close>

theorem split_command_lost:
  "select_head @ select_tail = select_packet
   \<and> map_sum id
       (\<lambda>(g, tr). (tr, map_option reqBuffer (chmap g client),
                   map_option reqSent (chmap g client), queryCount g))
       (run_packets default_config start_globals
          [(client, \<lparr>request = True, data = select_head, now = 10, randn = 0\<rparr>),
           (client, \<lparr>request = True, data = select_tail, now = 11, randn = 0\<rparr>)])
     = Inr ([(client, ReqIncomplete IncompletePacket), (client, ReqIncomplete IncompletePacket)],
            Some select_tail, Some None, 0)
   \<and> map_sum id
       (\<lambda>(g, tr). (tr, map_option reqBuffer (chmap g client),
                   map_option reqSent (chmap g client), queryCount g))
       (run_packets default_config start_globals
          [(client, \<lparr>request = True, data = select_packet, now = 10, randn = 0\<rparr>)])
     = Inr ([(client, ReqRecorded 3)], Some [], Some (Some 10), 1)"
  by (simp add: run_defs)

section \<open>The stages of \<open>cleanupQuery\<close>\<close>

text \<open>
  \<open>cleanupQuery\<close> runs in three stages: the token loop and \<open>strings.Join(qspace, "")\<close>,
  the rewrite of a leading \<open>/* host:route */\<close> comment, and
  \<open>strings.ReplaceAll(tmp, "?, ", "")\<close>.
\<close>

definition joined :: "config \<Rightarrow> bytes \<Rightarrow> bytes" where
  "joined cfg q = concat (pieces cfg q)"

definition strip_host :: "bytes \<Rightarrow> bytes" where
  "strip_host tmp =
     (let parts = SplitN tmp (str '' '') 5 in
      if length parts \<ge> 5 \<and> parts ! 1 = str ''/*'' \<and> parts ! 3 = str ''*/''
         \<and> Contains (parts ! 2) (str '':'')
      then parts ! 0 @ str '' /* '' @ SplitN (parts ! 2) (str '':'') 2 ! 1 @ str '' */ '' @ parts ! 4
      else tmp)"

definition collapse :: "bytes \<Rightarrow> bytes" where
  "collapse tmp = ReplaceAll tmp (str ''?, '') []"

lemma cleanupQuery_stages:
  "cleanupQuery cfg q = Inr (collapse (strip_host (joined cfg q)))"
  by (simp add: cleanupQuery_def cleanup_loop_pieces joined_def strip_host_def collapse_def Let_def)

declare ReplaceAll.simps [simp del]

lemma collapse_Nil [simp]: "collapse [] = []"
  by (simp add: collapse_def ReplaceAll.simps [of "[]"] str_def)

lemma collapse_match [simp]: "collapse (63 # 44 # 32 # s) = collapse s"
  by (simp add: collapse_def ReplaceAll.simps [of "63 # 44 # 32 # s"] str_def)

lemma collapse_Cons:
  assumes "take 3 (c # s) \<noteq> [63, 44, 32]"
  shows "collapse (c # s) = c # collapse s"
proof -
  have l: "length [63, 44, 32 :: byte] = 3" by simp
  have "ReplaceAll (c # s) [63, 44, 32] [] = c # ReplaceAll s [63, 44, 32] []"
    by (subst ReplaceAll.simps) (simp only: l assms if_False list.case list.distinct)
  then show ?thesis by (simp add: collapse_def str_def)
qed

lemma collapse_other [simp]: "c \<noteq> 63 \<Longrightarrow> collapse (c # s) = c # collapse s"
  by (rule collapse_Cons) auto

lemma collapse_cases:
  obtains (nil) "s = []"
  | (match) r where "s = 63 # 44 # 32 # r"
  | (step) c r where "s = c # r" "take 3 s \<noteq> [63, 44, 32]"
proof (cases "take 3 s = [63, 44, 32]")
  case True
  then have "s = 63 # 44 # 32 # drop 3 s"
    by (metis append_take_drop_id append_Cons append_Nil)
  then show ?thesis using match by blast
next
  case False
  then show ?thesis using nil step by (cases s) auto
qed

lemma collapse_induct [case_names nil match step]:
  assumes "P []"
    and "\<And>r. P r \<Longrightarrow> P (63 # 44 # 32 # r)"
    and "\<And>c r. P r \<Longrightarrow> take 3 (c # r) \<noteq> [63, 44, 32] \<Longrightarrow> P (c # r)"
  shows "P s"
proof (induction "length s" arbitrary: s rule: less_induct)
  case less
  show ?case
  proof (cases s rule: collapse_cases)
    case nil
    with assms(1) show ?thesis by simp
  next
    case (match r)
    with less [of r] assms(2) show ?thesis by simp
  next
    case (step c r)
    with less [of r] assms(3) show ?thesis by simp
  qed
qed

lemma set_collapse: "set (collapse s) \<subseteq> set s"
  by (induction s rule: collapse_induct) (auto simp: collapse_Cons)


text \<open>
  \<open>scanToken\<close> classifies quotes, numbers and whitespace unless both \<open>verbose\<close> and
  \<open>noclean\<close> are set; then the whole query is one token of type \<open>TOKEN_OTHER\<close>.
\<close>

definition clean :: "config \<Rightarrow> bool" where
  "clean cfg = (\<not> (verbose cfg \<and> noclean cfg))"

text \<open>The bytes of the \<open>default\<close> case of the \<open>switch\<close>.\<close>

definition is_plain :: "byte \<Rightarrow> bool" where
  "is_plain b = (\<not> is_quote b \<and> \<not> is_digit b \<and> \<not> is_space b \<and> \<not> is_letter b)"

lemma byte_classes:
  "is_quote b \<Longrightarrow> \<not> is_digit b \<and> \<not> is_space b \<and> \<not> is_letter b"
  "is_digit b \<Longrightarrow> \<not> is_quote b \<and> \<not> is_space b \<and> \<not> is_letter b"
  "is_space b \<Longrightarrow> \<not> is_quote b \<and> \<not> is_digit b \<and> \<not> is_letter b"
  "is_letter b \<Longrightarrow> \<not> is_quote b \<and> \<not> is_digit b \<and> \<not> is_space b"
  by (auto simp: is_quote_def is_digit_def is_space_def is_letter_def word_le_nat_alt)

lemma scan_run_takeWhile: "scan_run p i cs = i + length (takeWhile p cs)"
  by (induction cs arbitrary: i) simp_all

lemma take_run: "take (1 + length (takeWhile p rest)) (b # rest) = b # takeWhile p rest"
  by (simp add: take_Suc_Cons) (metis append_eq_conv_conj takeWhile_dropWhile_id)

lemma drop_run: "drop (1 + length (takeWhile p rest)) (b # rest) = dropWhile p rest"
  by simp (metis append_eq_conv_conj takeWhile_dropWhile_id)

lemma scanToken_classes:
  "scanToken cfg (b # rest) =
     (if verbose cfg \<and> noclean cfg then Inr (length (b # rest), TOKEN_OTHER)
      else if is_quote b then Inr (scan_quote b False 1 rest, TOKEN_QUOTE)
      else if is_digit b then Inr (scan_run is_digit 1 rest, TOKEN_NUMBER)
      else if is_space b then Inr (scan_run is_space 1 rest, TOKEN_WHITESPACE)
      else if is_letter b then Inr (scan_run is_wordchar 1 rest, TOKEN_WORD)
      else Inr (1, TOKEN_OTHER))"
  by (simp only: scanToken_def list.case is_quote_def is_digit_def is_space_def is_letter_def)

lemma scanToken_clean:
  assumes "clean cfg"
  shows "is_quote b \<Longrightarrow> scanToken cfg (b # rest) = Inr (scan_quote b False 1 rest, TOKEN_QUOTE)"
    and "is_digit b \<Longrightarrow>
           scanToken cfg (b # rest) = Inr (1 + length (takeWhile is_digit rest), TOKEN_NUMBER)"
    and "is_space b \<Longrightarrow>
           scanToken cfg (b # rest) = Inr (1 + length (takeWhile is_space rest), TOKEN_WHITESPACE)"
    and "is_letter b \<Longrightarrow>
           scanToken cfg (b # rest) = Inr (1 + length (takeWhile is_wordchar rest), TOKEN_WORD)"
    and "is_plain b \<Longrightarrow> scanToken cfg (b # rest) = Inr (1, TOKEN_OTHER)"
proof -
  from assms have c: "\<not> (verbose cfg \<and> noclean cfg)" by (simp add: clean_def)
  show "is_quote b \<Longrightarrow> scanToken cfg (b # rest) = Inr (scan_quote b False 1 rest, TOKEN_QUOTE)"
    by (simp only: scanToken_classes c if_False if_True)
  show "is_digit b \<Longrightarrow>
           scanToken cfg (b # rest) = Inr (1 + length (takeWhile is_digit rest), TOKEN_NUMBER)"
    using byte_classes(2) [of b]
    by (simp only: scanToken_classes c if_False if_True scan_run_takeWhile)
  show "is_space b \<Longrightarrow>
           scanToken cfg (b # rest) = Inr (1 + length (takeWhile is_space rest), TOKEN_WHITESPACE)"
    using byte_classes(3) [of b]
    by (simp only: scanToken_classes c if_False if_True scan_run_takeWhile)
  show "is_letter b \<Longrightarrow>
           scanToken cfg (b # rest) = Inr (1 + length (takeWhile is_wordchar rest), TOKEN_WORD)"
    using byte_classes(4) [of b]
    by (simp only: scanToken_classes c if_False if_True scan_run_takeWhile)
  show "is_plain b \<Longrightarrow> scanToken cfg (b # rest) = Inr (1, TOKEN_OTHER)"
    by (simp only: scanToken_classes c if_False if_True is_plain_def)
qed


lemma joined_Nil [simp]: "joined cfg [] = []"
  by (simp add: joined_def pieces_def)

lemma joined_step:
  "q \<noteq> [] \<Longrightarrow> scanToken cfg q = Inr (n, t) \<Longrightarrow>
   joined cfg q = emit t (take n q) @ joined cfg (drop n q)"
  by (simp add: joined_def pieces_def tokenize_step)

lemma joined_noclean:
  assumes "\<not> clean cfg"
  shows "joined cfg q = q"
proof (cases q)
  case Nil
  then show ?thesis by simp
next
  case (Cons b rest)
  from assms have "scanToken cfg (b # rest) = Inr (length (b # rest), TOKEN_OTHER)"
    by (simp add: scanToken_classes clean_def)
  from joined_step [OF _ this] Cons show ?thesis
    by (simp add: emit_def)
qed

lemma quote_drop:
  "drop (scan_quote b False 1 rest) (b # rest) = drop (scan_quote b False 1 rest - 1) rest"
  using scan_quote_bounds [of 1 b False rest]
  by (cases "scan_quote b False 1 rest") simp_all

lemma joined_clean:
  assumes "clean cfg"
  shows "is_quote b \<Longrightarrow>
           joined cfg (b # rest) = 63 # joined cfg (drop (scan_quote b False 1 rest - 1) rest)"
    and "is_digit b \<Longrightarrow> joined cfg (b # rest) = 63 # joined cfg (dropWhile is_digit rest)"
    and "is_space b \<Longrightarrow> joined cfg (b # rest) = 32 # joined cfg (dropWhile is_space rest)"
    and "is_letter b \<Longrightarrow>
           joined cfg (b # rest) =
             b # takeWhile is_wordchar rest @ joined cfg (dropWhile is_wordchar rest)"
    and "is_plain b \<Longrightarrow> joined cfg (b # rest) = b # joined cfg rest"
proof -
  have ne: "b # rest \<noteq> []" by simp
  show "is_quote b \<Longrightarrow>
           joined cfg (b # rest) = 63 # joined cfg (drop (scan_quote b False 1 rest - 1) rest)"
    using joined_step [OF ne scanToken_clean(1) [OF assms]]
    by (simp only: quote_drop) (simp add: emit_def str_def)
  show "is_digit b \<Longrightarrow> joined cfg (b # rest) = 63 # joined cfg (dropWhile is_digit rest)"
    using joined_step [OF ne scanToken_clean(2) [OF assms]]
    by (simp only: drop_run) (simp add: emit_def str_def)
  show "is_space b \<Longrightarrow> joined cfg (b # rest) = 32 # joined cfg (dropWhile is_space rest)"
    using joined_step [OF ne scanToken_clean(3) [OF assms]]
    by (simp only: drop_run) (simp add: emit_def str_def)
  show "is_letter b \<Longrightarrow>
           joined cfg (b # rest) =
             b # takeWhile is_wordchar rest @ joined cfg (dropWhile is_wordchar rest)"
    using joined_step [OF ne scanToken_clean(4) [OF assms]]
    by (simp only: drop_run take_run) (simp add: emit_def)
  show "is_plain b \<Longrightarrow> joined cfg (b # rest) = b # joined cfg rest"
    using joined_step [OF ne scanToken_clean(5) [OF assms]]
    by (simp add: emit_def)
qed

lemma token_induct [case_names nil quote digit space letter plain]:
  assumes "P []"
    and "\<And>b rest. is_quote b \<Longrightarrow> P (drop (scan_quote b False 1 rest - 1) rest) \<Longrightarrow> P (b # rest)"
    and "\<And>b rest. is_digit b \<Longrightarrow> P (dropWhile is_digit rest) \<Longrightarrow> P (b # rest)"
    and "\<And>b rest. is_space b \<Longrightarrow> P (dropWhile is_space rest) \<Longrightarrow> P (b # rest)"
    and "\<And>b rest. is_letter b \<Longrightarrow> P (dropWhile is_wordchar rest) \<Longrightarrow> P (b # rest)"
    and "\<And>b rest. is_plain b \<Longrightarrow> P rest \<Longrightarrow> P (b # rest)"
  shows "P q"
proof (induction "length q" arbitrary: q rule: less_induct)
  case less
  show ?case
  proof (cases q)
    case Nil
    with assms(1) show ?thesis by simp
  next
    case (Cons b rest)
    have dw: "length (dropWhile p rest) < length q" for p
      using Cons length_dropWhile_le [of p rest] by simp
    have dq: "length (drop (scan_quote b False 1 rest - 1) rest) < length q"
      using Cons by simp
    consider "is_quote b" | "is_digit b" | "is_space b" | "is_letter b" | "is_plain b"
      by (auto simp: is_plain_def)
    then show ?thesis
    proof cases
      case 1
      with assms(2) less [OF dq] Cons show ?thesis by simp
    next
      case 2
      with assms(3) less [OF dw] Cons show ?thesis by simp
    next
      case 3
      with assms(4) less [OF dw] Cons show ?thesis by simp
    next
      case 4
      with assms(5) less [OF dw] Cons show ?thesis by simp
    next
      case 5
      with assms(6) less [of rest] Cons show ?thesis by simp
    qed
  qed
qed

subsection \<open>What a fingerprint looks like\<close>

text \<open>
  Three properties of a text that the token loop reproduces byte for byte: it has no quote and no
  whitespace byte other than the space (\<open>ok_chars\<close>), every digit follows a letter, a digit
  or one of \<open>$\<close>, \<open>_\<close> inside a word (\<open>dok\<close>, whose flag says that a word is open), and it
  has no two spaces in a row (\<open>nodbl\<close>).
\<close>

definition ok_chars :: "bytes \<Rightarrow> bool" where
  "ok_chars s = (\<forall>c \<in> set s. \<not> is_quote c \<and> (is_space c \<longrightarrow> c = 32))"

fun dok :: "bool \<Rightarrow> bytes \<Rightarrow> bool" where
  "dok w [] = True"
| "dok w (c # cs) =
     (if is_letter c then dok True cs
      else if is_digit c then w \<and> dok True cs
      else if c = 36 \<or> c = 95 then dok w cs
      else dok False cs)"

fun nodbl :: "bytes \<Rightarrow> bool" where
  "nodbl (a # b # cs) = (\<not> (a = 32 \<and> b = 32) \<and> nodbl (b # cs))"
| "nodbl cs = True"

lemma not_space_consts: "\<not> is_space 36" "\<not> is_space 95" "\<not> is_quote 36" "\<not> is_quote 95"
  by (simp_all add: is_space_def is_quote_def)

lemma wordchar_not_quote: "is_wordchar c \<Longrightarrow> \<not> is_quote c"
  using byte_classes(2) [of c] byte_classes(4) [of c] not_space_consts
  by (auto simp: is_wordchar_def)

lemma wordchar_not_space: "is_wordchar c \<Longrightarrow> \<not> is_space c"
  using byte_classes(2) [of c] byte_classes(4) [of c] not_space_consts
  by (auto simp: is_wordchar_def)

lemma wordchar_simps:
  "is_letter c \<Longrightarrow> is_wordchar c" "is_digit c \<Longrightarrow> is_wordchar c"
  "is_wordchar 36" "is_wordchar 95"
  by (simp_all add: is_wordchar_def)

lemma plain_wordchar: "is_plain c \<Longrightarrow> is_wordchar c \<longleftrightarrow> c = 36 \<or> c = 95"
  by (auto simp: is_wordchar_def is_plain_def)

lemma const_classes:
  "is_plain 63" "is_plain 36" "is_plain 95" "is_space 32" "is_plain 44" "is_plain 58"
  "is_plain 47" "is_plain 42" "is_plain 40"
  by (simp_all add: is_plain_def is_quote_def is_digit_def is_space_def is_letter_def)


lemma dok_mono: "dok False s \<Longrightarrow> dok w s"
  by (induction s arbitrary: w) (auto split: if_splits)

lemma dok_word_append:
  "\<forall>c \<in> set u. is_wordchar c \<Longrightarrow> dok True (u @ s) = dok True s"
  by (induction u) (auto simp: is_wordchar_def)

lemma dok_dropWhile: "dok w s \<Longrightarrow> dok False (dropWhile is_wordchar s)"
proof (induction s arbitrary: w)
  case Nil
  show ?case by simp
next
  case (Cons c cs)
  show ?case
  proof (cases "is_wordchar c")
    case True
    with Cons.prems Cons.IH [of True] Cons.IH [of w] show ?thesis
      by (auto simp: is_wordchar_def split: if_splits)
  next
    case False
    with Cons.prems show ?thesis
      by (auto simp: is_wordchar_def split: if_splits)
  qed
qed

text \<open>The joined text of any query has the characters and digits in place.\<close>

lemma ok_chars_joined:
  assumes "clean cfg"
  shows "ok_chars (joined cfg q)"
proof (induction q rule: token_induct)
  case nil
  show ?case by (simp add: ok_chars_def)
next
  case (quote b rest)
  with const_classes(1) show ?case
    by (simp add: joined_clean(1) [OF assms] ok_chars_def is_plain_def)
next
  case (digit b rest)
  with const_classes(1) show ?case
    by (simp add: joined_clean(2) [OF assms] ok_chars_def is_plain_def)
next
  case (space b rest)
  then show ?case
    by (simp add: joined_clean(3) [OF assms] ok_chars_def is_quote_def)
next
  case (letter b rest)
  have "\<forall>c \<in> set (takeWhile is_wordchar rest). \<not> is_quote c \<and> \<not> is_space c"
    using wordchar_not_quote wordchar_not_space by (auto dest: set_takeWhileD)
  with letter byte_classes(4) [of b] show ?case
    by (auto simp add: joined_clean(4) [OF assms] ok_chars_def)
next
  case (plain b rest)
  then show ?case
    by (simp add: joined_clean(5) [OF assms] ok_chars_def is_plain_def)
qed

lemma dok_joined:
  assumes "clean cfg"
  shows "dok False (joined cfg q)"
proof (induction q rule: token_induct)
  case nil
  show ?case by simp
next
  case (quote b rest)
  with const_classes(1) show ?case
    by (simp add: joined_clean(1) [OF assms] is_plain_def)
next
  case (digit b rest)
  with const_classes(1) show ?case
    by (simp add: joined_clean(2) [OF assms] is_plain_def)
next
  case (space b rest)
  with const_classes(4) byte_classes(3) [of 32] show ?case
    by (simp add: joined_clean(3) [OF assms])
next
  case (letter b rest)
  have "\<forall>c \<in> set (takeWhile is_wordchar rest). is_wordchar c"
    by (auto dest: set_takeWhileD)
  from dok_word_append [OF this] letter dok_mono show ?case
    by (simp add: joined_clean(4) [OF assms])
next
  case (plain b rest)
  then show ?case
    by (auto simp add: joined_clean(5) [OF assms] is_plain_def)
qed

lemma nodbl_tl: "nodbl (c # cs) \<Longrightarrow> nodbl cs"
  by (cases cs) simp_all

lemma nodbl_drop: "nodbl s \<Longrightarrow> nodbl (drop n s)"
proof (induction n arbitrary: s)
  case 0
  then show ?case by simp
next
  case (Suc n)
  then show ?case by (cases s) (auto dest: nodbl_tl)
qed

lemma nodbl_dropWhile: "nodbl s \<Longrightarrow> nodbl (dropWhile p s)"
  using nodbl_drop [of s "length (takeWhile p s)"] by (simp add: dropWhile_eq_drop)

lemma ok_chars_dropWhile: "ok_chars s \<Longrightarrow> ok_chars (dropWhile p s)"
  by (auto simp: ok_chars_def dest: set_dropWhileD)

lemma ok_chars_Cons: "ok_chars (c # s) \<longleftrightarrow> \<not> is_quote c \<and> (is_space c \<longrightarrow> c = 32) \<and> ok_chars s"
  by (auto simp: ok_chars_def)

lemma joined_fixed:
  assumes "clean cfg"
  shows "ok_chars x \<Longrightarrow> dok False x \<Longrightarrow> nodbl x \<Longrightarrow> joined cfg x = x"
proof (induction x rule: token_induct)
  case nil
  show ?case by simp
next
  case (quote b rest)
  then show ?case by (simp add: ok_chars_Cons)
next
  case (digit b rest)
  with byte_classes(2) [of b] show ?case by simp
next
  case (space b rest)
  then have b: "b = 32" and okr: "ok_chars rest"
    by (simp_all add: ok_chars_Cons)
  have ns: "rest = [] \<or> \<not> is_space (hd rest)"
  proof (cases rest)
    case Nil
    then show ?thesis by simp
  next
    case (Cons d r)
    with okr space.prems(3) b show ?thesis
      by (auto simp: ok_chars_Cons)
  qed
  then have dw: "dropWhile is_space rest = rest"
    by (cases rest) auto
  from space.prems(2) space.hyps byte_classes(3) [of b] b have "dok False rest"
    by simp
  with space.IH okr nodbl_tl [OF space.prems(3)] dw have "joined cfg rest = rest"
    by simp
  with space.hyps dw b show ?case
    by (simp add: joined_clean(3) [OF assms])
next
  case (letter b rest)
  from letter.prems(2) letter.hyps have "dok True rest" by simp
  then have "dok False (dropWhile is_wordchar rest)" by (rule dok_dropWhile)
  moreover have "ok_chars (dropWhile is_wordchar rest)"
    using letter.prems(1) by (simp add: ok_chars_Cons ok_chars_dropWhile)
  moreover have "nodbl (dropWhile is_wordchar rest)"
    using nodbl_tl [OF letter.prems(3)] by (rule nodbl_dropWhile)
  ultimately have "joined cfg (dropWhile is_wordchar rest) = dropWhile is_wordchar rest"
    using letter.IH by simp
  with letter.hyps show ?case
    by (simp add: joined_clean(4) [OF assms])
next
  case (plain b rest)
  from plain.prems(2) plain.hyps have "dok False rest"
    by (auto simp: is_plain_def split: if_splits)
  with plain.IH plain.prems nodbl_tl [of b rest] have "joined cfg rest = rest"
    by (simp add: ok_chars_Cons)
  with plain.hyps show ?case
    by (simp add: joined_clean(5) [OF assms])
qed

text \<open>Removing \<open>"?, "\<close> keeps the characters and the digits in place.\<close>

lemma ok_chars_collapse: "ok_chars s \<Longrightarrow> ok_chars (collapse s)"
  using set_collapse [of s] by (auto simp: ok_chars_def)

lemma dok_collapse: "dok w s \<Longrightarrow> dok w (collapse s)"
proof (induction s arbitrary: w rule: collapse_induct)
  case nil
  show ?case by simp
next
  case (match r)
  from match.prems const_classes(1) const_classes(5) const_classes(4) byte_classes(3) [of 32]
  have "dok False r"
    by (simp add: is_plain_def)
  from dok_mono [OF match.IH [OF this]] show ?case by simp
next
  case (step c r)
  from step.prems step.IH show ?case
    by (auto simp: collapse_Cons [OF step.hyps] split: if_splits)
qed

subsection \<open>\<open>strings.SplitN\<close> on a one-byte separator\<close>

lemma Index_single:
  "Index s [c] = (if c \<in> set s then Some (length (takeWhile (\<lambda>x. x \<noteq> c) s)) else None)"
  by (induction s) auto

lemma Contains_single: "Contains s [c] \<longleftrightarrow> c \<in> set s"
  by (simp add: Contains_def Index_single)

lemma SplitN_no_sep: "c \<notin> set s \<Longrightarrow> SplitN s [c] (Suc n) = [s]"
  by (cases n) (simp_all add: Index_single)

lemma takeWhile_upto: "c \<notin> set p \<Longrightarrow> takeWhile (\<lambda>x. x \<noteq> c) (p @ c # rest) = p"
  by (induction p) auto

lemma SplitN_sep:
  assumes "c \<notin> set p"
  shows "SplitN (p @ c # rest) [c] (Suc (Suc n)) = p # SplitN rest [c] (Suc n)"
  using assms by (simp add: Index_single takeWhile_upto)

declare SplitN.simps [simp del]

lemma split_first:
  assumes "c \<in> set s"
  obtains p rest where "s = p @ c # rest" "c \<notin> set p"
  using assms split_list_first by fastforce

lemma SplitN_shape:
  "\<exists>ps r. SplitN s [c] (Suc k) = ps @ [r] \<and> length ps \<le> k \<and> (\<forall>p \<in> set ps. c \<notin> set p)
          \<and> s = concat (map (\<lambda>p. p @ [c]) ps) @ r"
proof (induction k arbitrary: s)
  case 0
  have "SplitN s [c] (Suc 0) = [] @ [s]" by (simp add: SplitN.simps)
  then show ?case by fastforce
next
  case (Suc k)
  show ?case
  proof (cases "c \<in> set s")
    case False
    from SplitN_no_sep [OF this] have "SplitN s [c] (Suc (Suc k)) = [] @ [s]" by simp
    then show ?thesis by fastforce
  next
    case True
    then obtain p rest where e: "s = p @ c # rest" "c \<notin> set p" by (rule split_first)
    from Suc.IH [of rest] obtain ps r
      where ih: "SplitN rest [c] (Suc k) = ps @ [r]" "length ps \<le> k"
        "\<forall>p \<in> set ps. c \<notin> set p" "rest = concat (map (\<lambda>p. p @ [c]) ps) @ r"
      by blast
    have "SplitN s [c] (Suc (Suc k)) = (p # ps) @ [r]"
      using SplitN_sep [OF e(2), of rest k] e(1) ih(1) by simp
    moreover have "s = concat (map (\<lambda>p. p @ [c]) (p # ps)) @ r"
      using e(1) ih(4) by simp
    ultimately show ?thesis
      using ih(2,3) e(2)
      by (intro exI [of _ "p # ps"] exI [of _ r]) auto
  qed
qed

text \<open>Five pieces are the text cut at its first four spaces.\<close>

lemma SplitN_five:
  assumes "length (SplitN s [32] 5) \<ge> 5"
  obtains p0 p1 p2 p3 p4
  where "s = p0 @ 32 # p1 @ 32 # p2 @ 32 # p3 @ 32 # p4"
    and "32 \<notin> set p0" "32 \<notin> set p1" "32 \<notin> set p2" "32 \<notin> set p3"
    and "SplitN s [32] 5 = [p0, p1, p2, p3, p4]"
proof -
  have n5: "(5 :: nat) = Suc 4" by simp
  from SplitN_shape [of s 32 4] obtain ps r
    where sh: "SplitN s [32] 5 = ps @ [r]" "length ps \<le> 4" "\<forall>p \<in> set ps. 32 \<notin> set p"
      "s = concat (map (\<lambda>p. p @ [32]) ps) @ r"
    unfolding n5 [symmetric] by blast
  from assms sh(1,2) have "length ps = 4" by simp
  then obtain p0 p1 p2 p3 where ps: "ps = [p0, p1, p2, p3]"
    by (auto simp: length_Suc_conv numeral_eq_Suc)
  show ?thesis
    using that [of p0 p1 p2 p3 r] sh ps by simp
qed

lemma SplitN_five_build:
  assumes "32 \<notin> set p0" "32 \<notin> set p1" "32 \<notin> set p2" "32 \<notin> set p3"
  shows "SplitN (p0 @ 32 # p1 @ 32 # p2 @ 32 # p3 @ 32 # p4) [32] 5 = [p0, p1, p2, p3, p4]"
proof -
  have "SplitN (p0 @ 32 # p1 @ 32 # p2 @ 32 # p3 @ 32 # p4) [32] (Suc (Suc (Suc (Suc (Suc 0)))))
        = [p0, p1, p2, p3, p4]"
    by (simp only: SplitN_sep [OF assms(1)] SplitN_sep [OF assms(2)] SplitN_sep [OF assms(3)]
        SplitN_sep [OF assms(4)] SplitN.simps(2))
  then show ?thesis by (simp add: numeral_eq_Suc)
qed

lemma SplitN_colon:
  assumes "58 \<notin> set h"
  shows "SplitN (h @ 58 # r) [58] 2 = [h, r]"
proof -
  have "SplitN (h @ 58 # r) [58] (Suc (Suc 0)) = [h, r]"
    by (simp only: SplitN_sep [OF assms] SplitN.simps(2))
  then show ?thesis by (simp add: numeral_eq_Suc)
qed

lemma str_consts:
  "str '' '' = [32]" "str '':'' = [58]" "str ''/*'' = [47, 42]" "str ''*/'' = [42, 47]"
  "str '' /* '' = [32, 47, 42, 32]" "str '' */ '' = [32, 42, 47, 32]" "str ''?'' = [63]"
  "str ''?, '' = [63, 44, 32]" "str '','' = [44]"
  by (simp_all add: str_def)

text \<open>\<open>strip_host\<close> leaves the text alone or takes the host out of the leading comment.\<close>

lemma strip_host_cases:
  obtains (same) "strip_host tmp = tmp"
  | (rewritten) p0 h r p4
  where "tmp = p0 @ [32, 47, 42, 32] @ h @ 58 # r @ [32, 42, 47, 32] @ p4"
    "32 \<notin> set p0" "32 \<notin> set h" "32 \<notin> set r" "58 \<notin> set h"
    "strip_host tmp = p0 @ [32, 47, 42, 32] @ r @ [32, 42, 47, 32] @ p4"
proof (cases "strip_host tmp = tmp")
  case True
  then show ?thesis by (rule same)
next
  case False
  let ?parts = "SplitN tmp [32] 5"
  from False have c: "length ?parts \<ge> 5" "?parts ! 1 = [47, 42]" "?parts ! 3 = [42, 47]"
    "Contains (?parts ! 2) [58]"
    and sh: "strip_host tmp =
               ?parts ! 0 @ [32, 47, 42, 32] @ SplitN (?parts ! 2) [58] 2 ! 1 @ [32, 42, 47, 32]
                 @ ?parts ! 4"
    unfolding strip_host_def Let_def str_consts by (auto split: if_splits)
  from c(1) obtain p0 p1 p2 p3 p4
    where e: "tmp = p0 @ 32 # p1 @ 32 # p2 @ 32 # p3 @ 32 # p4"
      and n: "32 \<notin> set p0" "32 \<notin> set p2"
      and l: "?parts = [p0, p1, p2, p3, p4]"
    by (rule SplitN_five)
  from c l have p: "p1 = [47, 42]" "p3 = [42, 47]" "58 \<in> set p2"
    by (simp_all add: Contains_single)
  from p(3) obtain h r where hr: "p2 = h @ 58 # r" "58 \<notin> set h" by (rule split_first)
  have "strip_host tmp = p0 @ [32, 47, 42, 32] @ r @ [32, 42, 47, 32] @ p4"
    using sh l hr SplitN_colon [OF hr(2), of r] by simp
  moreover have "tmp = p0 @ [32, 47, 42, 32] @ h @ 58 # r @ [32, 42, 47, 32] @ p4"
    using e p hr by simp
  ultimately show ?thesis
    using rewritten [of p0 h r p4] n hr by auto
qed

lemma dok_split:
  "\<not> is_wordchar c \<Longrightarrow> dok w (a @ c # b) = (dok w a \<and> dok False b)"
proof (induction a arbitrary: w)
  case Nil
  then show ?case by (simp add: is_wordchar_def)
next
  case (Cons x a)
  then show ?case by simp
qed

lemma not_wordchar_consts:
  "\<not> is_wordchar 32" "\<not> is_wordchar 58" "\<not> is_wordchar 47" "\<not> is_wordchar 42"
  using const_classes plain_wordchar [of 58] plain_wordchar [of 47] plain_wordchar [of 42]
    wordchar_not_space [of 32]
  by auto

lemma ok_chars_strip_host:
  assumes "ok_chars s"
  shows "ok_chars (strip_host s)"
proof (cases s rule: strip_host_cases)
  case same
  with assms show ?thesis by simp
next
  case (rewritten p0 h r p4)
  have k: "\<not> is_quote 47" "\<not> is_quote 42" "\<not> is_space 47" "\<not> is_space 42" "\<not> is_quote 32"
    using const_classes byte_classes(3) [of 32] by (simp_all add: is_plain_def)
  from assms [unfolded rewritten(1)] k show ?thesis
    unfolding rewritten(6) by (auto simp: ok_chars_def)
qed

lemma dok_strip_host:
  assumes "dok False s"
  shows "dok False (strip_host s)"
proof (cases s rule: strip_host_cases)
  case same
  with assms show ?thesis by simp
next
  case (rewritten p0 h r p4)
  have d: "dok False (p0 @ 32 # x) = (dok False p0 \<and> dok False x)" for x
    by (rule dok_split [OF not_wordchar_consts(1)])
  have c: "dok False (h @ 58 # x) = (dok False h \<and> dok False x)" for x
    by (rule dok_split [OF not_wordchar_consts(2)])
  have r: "dok False (r @ 32 # x) = (dok False r \<and> dok False x)" for x
    by (rule dok_split [OF not_wordchar_consts(1)])
  have k: "dok w (47 # x) = dok False x" "dok w (42 # x) = dok False x" "dok w (32 # x) = dok False x"
    for w x
    using not_wordchar_consts by (simp_all add: is_wordchar_def)
  note dok.simps(2) [simp del]
  from assms [unfolded rewritten(1)] show ?thesis
    unfolding rewritten(6) by (simp add: d c r k del: dok.simps(2))
qed

lemma Contains_prefix: "take (length pat) s = pat \<Longrightarrow> Contains s pat"
  by (cases s) (auto simp: Contains_def)

lemma Contains_Cons: "Contains s pat \<Longrightarrow> Contains (c # s) pat"
  by (auto simp: Contains_def)

lemma collapse_absent: "\<not> Contains s [63, 44, 32] \<Longrightarrow> collapse s = s"
proof (induction s rule: collapse_induct)
  case nil
  show ?case by simp
next
  case (match r)
  from match.prems Contains_prefix [of "[63, 44, 32]" "63 # 44 # 32 # r"] show ?case by simp
next
  case (step c r)
  from step.prems Contains_Cons have "\<not> Contains r [63, 44, 32]" by blast
  with step.IH show ?case by (simp add: collapse_Cons [OF step.hyps])
qed

lemma nodbl_absent: "\<not> Contains s [32, 32] \<Longrightarrow> nodbl s"
proof (induction s rule: nodbl.induct)
  case (1 a b cs)
  from "1.prems" Contains_Cons have "\<not> Contains (b # cs) [32, 32]" by blast
  moreover from "1.prems" Contains_prefix [of "[32, 32]" "a # b # cs"] have "\<not> (a = 32 \<and> b = 32)"
    by auto
  ultimately show ?case using "1.IH" by simp
qed simp_all

text \<open>
  The test of \<open>cleanupQuery\<close> for a comment to rewrite: the second and fourth of the five
  pieces between spaces are \<open>/*\<close> and \<open>*/\<close>, and the third has a colon.
\<close>

definition has_host_comment :: "bytes \<Rightarrow> bool" where
  "has_host_comment tmp =
     (let parts = SplitN tmp (str '' '') 5 in
      length parts \<ge> 5 \<and> parts ! 1 = str ''/*'' \<and> parts ! 3 = str ''*/''
        \<and> Contains (parts ! 2) (str '':''))"

lemma strip_host_absent: "\<not> has_host_comment s \<Longrightarrow> strip_host s = s"
  by (auto simp: strip_host_def has_host_comment_def Let_def)

section \<open>Canonicalizing a fingerprint again\<close>

text \<open>
  C8. Canonicalization is idempotent on the fingerprints that the last two stages leave alone:
  for every query \<open>Q\<close> whose fingerprint \<open>c\<close> contains no \<open>"?, "\<close>, has no two spaces in a row
  and does not begin with a piece, a space and a comment \<open>/* host:route */\<close> that still has a
  colon, canonicalizing \<open>c\<close> gives \<open>c\<close> again, whatever the flags.
\<close>

theorem cleanupQuery_idempotent:
  assumes "cleanupQuery cfg Q = Inr c"
    and "\<not> Contains c (str ''?, '')"
    and "\<not> Contains c (str ''  '')"
    and "\<not> has_host_comment c"
  shows "cleanupQuery cfg c = Inr c"
proof -
  have fin: "collapse (strip_host c) = c"
    using assms(2,4) by (simp add: strip_host_absent collapse_absent str_consts)
  have "joined cfg c = c"
  proof (cases "clean cfg")
    case False
    then show ?thesis by (rule joined_noclean)
  next
    case True
    from assms(1) have c: "c = collapse (strip_host (joined cfg Q))"
      by (simp add: cleanupQuery_stages)
    have "ok_chars c"
      unfolding c by (intro ok_chars_collapse ok_chars_strip_host ok_chars_joined True)
    moreover have "dok False c"
      unfolding c by (intro dok_collapse dok_strip_host dok_joined True)
    moreover have "nodbl c"
      using assms(3) by (simp add: nodbl_absent str_def)
    ultimately show ?thesis by (rule joined_fixed [OF True])
  qed
  with fin show ?thesis by (simp add: cleanupQuery_stages)
qed

lemma in_list_example:
  "cleanupQuery default_config (str ''select * from table where x in (1, 2, 'foo')'')
     = Inr (str ''select * from table where x in (?)'')"
  by code_simp

lemma in_list_fingerprint:
  "\<not> Contains (str ''select * from table where x in (?)'') (str ''?, '')"
  "\<not> Contains (str ''select * from table where x in (?)'') (str ''  '')"
  "\<not> has_host_comment (str ''select * from table where x in (?)'')"
  by code_simp+

text \<open>The fingerprint of the example query of the documentation is such a fixed point.\<close>

theorem cleanupQuery_idempotent_witness:
  "cleanupQuery default_config (str ''select * from table where x in (1, 2, 'foo')'')
     = Inr (str ''select * from table where x in (?)'')
   \<and> \<not> Contains (str ''select * from table where x in (?)'') (str ''?, '')
   \<and> \<not> Contains (str ''select * from table where x in (?)'') (str ''  '')
   \<and> \<not> has_host_comment (str ''select * from table where x in (?)'')
   \<and> cleanupQuery default_config (str ''select * from table where x in (?)'')
     = Inr (str ''select * from table where x in (?)'')"
  using cleanupQuery_idempotent [OF in_list_example in_list_fingerprint]
    in_list_example in_list_fingerprint by blast

text \<open>
  Without these conditions a second pass changes the fingerprint: a comment with two colons
  loses one piece per pass, removing \<open>"?, "\<close> can put a \<open>?\<close> before a comma and a space, and
  an empty route leaves two spaces that the next pass joins.
\<close>

theorem cleanupQuery_counterexample:
  "cleanupQuery default_config (str ''SELECT /* web1:orders:list */ * FROM users'')
     = Inr (str ''SELECT /* orders:list */ * FROM users'')
   \<and> cleanupQuery default_config (str ''SELECT /* orders:list */ * FROM users'')
     = Inr (str ''SELECT /* list */ * FROM users'')
   \<and> str ''SELECT /* orders:list */ * FROM users'' \<noteq> str ''SELECT /* list */ * FROM users''
   \<and> cleanupQuery default_config (str ''select a from t where b in (??, , 1)'')
     = Inr (str ''select a from t where b in (?, ?)'')
   \<and> cleanupQuery default_config (str ''select a from t where b in (?, ?)'')
     = Inr (str ''select a from t where b in (?)'')
   \<and> cleanupQuery default_config (str ''SELECT /* h: */ x'') = Inr (str ''SELECT /*  */ x'')
   \<and> cleanupQuery default_config (str ''SELECT /*  */ x'') = Inr (str ''SELECT /* */ x'')"
  by code_simp

section \<open>Queries with one fingerprint\<close>

subsection \<open>The lexical items of a query\<close>

text \<open>
  What two queries can differ in is said on their lexical items: a word, a number (a run of
  decimal digits), a string between two single or two double quotes, a run of whitespace, and
  any other byte. \<open>written\<close> gives the bytes of an item, \<open>query_of\<close> the query of a list of
  items.
\<close>

datatype lexeme = Word bytes | Number bytes | Quoted byte bytes | Blank bytes | Sym byte

fun written :: "lexeme \<Rightarrow> bytes" where
  "written (Word w) = w"
| "written (Number d) = d"
| "written (Quoted q s) = q # s @ [q]"
| "written (Blank w) = w"
| "written (Sym c) = [c]"

definition query_of :: "lexeme list \<Rightarrow> bytes" where
  "query_of xs = concat (map written xs)"

text \<open>
  The content of a quoted string: every byte equal to the delimiter follows a backslash, and
  the last byte is no backslash. The flag says whether the byte before is a backslash.
\<close>

fun inner :: "byte \<Rightarrow> bool \<Rightarrow> bytes \<Rightarrow> bool" where
  "inner q after_backslash [] = (\<not> after_backslash)"
| "inner q after_backslash (c # cs) = ((c \<noteq> q \<or> after_backslash) \<and> inner q (c = 92) cs)"

text \<open>
  A word is a letter and then letters, digits, \<open>$\<close> and \<open>_\<close>; a number is one digit or more; a
  run of whitespace is one whitespace byte or more; any other byte is no quote, digit,
  whitespace or letter.
\<close>

fun lexeme_ok :: "lexeme \<Rightarrow> bool" where
  "lexeme_ok (Word w) = (w \<noteq> [] \<and> is_letter (hd w) \<and> list_all is_wordchar (tl w))"
| "lexeme_ok (Number d) = (d \<noteq> [] \<and> list_all is_digit d)"
| "lexeme_ok (Quoted q s) = (is_quote q \<and> inner q False s)"
| "lexeme_ok (Blank w) = (w \<noteq> [] \<and> list_all is_space w)"
| "lexeme_ok (Sym c) = is_plain c"

text \<open>
  The items of a list are the items of its query when no item goes on into the next: no word
  byte after a word, no digit after a number, no whitespace after whitespace.
\<close>

fun goes_on :: "lexeme \<Rightarrow> byte \<Rightarrow> bool" where
  "goes_on (Word w) b = is_wordchar b"
| "goes_on (Number d) b = is_digit b"
| "goes_on (Blank w) b = is_space b"
| "goes_on x b = False"

fun lexemes_ok :: "lexeme list \<Rightarrow> bool" where
  "lexemes_ok [] = True"
| "lexemes_ok [x] = lexeme_ok x"
| "lexemes_ok (x # y # xs) =
     (lexeme_ok x \<and> \<not> goes_on x (hd (written y)) \<and> lexemes_ok (y # xs))"

text \<open>The item with a number or a string replaced by \<open>?\<close> and whitespace by one space.\<close>

fun mask :: "lexeme \<Rightarrow> bytes" where
  "mask (Word w) = w"
| "mask (Number d) = str ''?''"
| "mask (Quoted q s) = str ''?''"
| "mask (Blank w) = str '' ''"
| "mask (Sym c) = [c]"

definition masked :: "lexeme list \<Rightarrow> bytes" where
  "masked xs = concat (map mask xs)"

lemma masked_simps [simp]:
  "masked [] = []" "masked (x # xs) = mask x @ masked xs" "masked (xs @ ys) = masked xs @ masked ys"
  by (simp_all add: masked_def)

lemma query_of_simps [simp]:
  "query_of [] = []" "query_of (x # xs) = written x @ query_of xs"
  by (simp_all add: query_of_def)

subsection \<open>The token loop reads the items\<close>

lemma run_split:
  assumes "list_all p w" and "rest = [] \<or> \<not> p (hd rest)"
  shows "takeWhile p (w @ rest) = w" and "dropWhile p (w @ rest) = rest"
proof -
  from assms(1) have a: "\<forall>x \<in> set w. p x" by (simp add: list_all_iff)
  from assms(2) have r: "takeWhile p rest = []" "dropWhile p rest = rest"
    by (cases rest; auto)+
  from a r show "takeWhile p (w @ rest) = w" by (simp add: takeWhile_append2)
  from a r show "dropWhile p (w @ rest) = rest" by (simp add: dropWhile_append2)
qed

lemma scan_quote_inner:
  assumes "inner q e s" and "q \<noteq> 92"
  shows "scan_quote q e i (s @ q # rest) = i + length s + 1"
  using assms(1)
proof (induction s arbitrary: e i)
  case Nil
  then show ?case by simp
next
  case (Cons c s)
  from Cons.prems have c: "c \<noteq> q \<or> e" and s: "inner q (c = 92) s" by simp_all
  show ?case
  proof (cases "c = q")
    case True
    with c assms(2) s have "inner q False s" by simp
    from Cons.IH [OF this] True c show ?thesis by simp
  next
    case False
    from Cons.IH [OF s] False show ?thesis by (cases "c = 92") simp_all
  qed
qed

lemma joined_lexeme:
  assumes "clean cfg" and "lexeme_ok x" and "rest = [] \<or> \<not> goes_on x (hd rest)"
  shows "joined cfg (written x @ rest) = mask x @ joined cfg rest"
proof (cases x)
  case (Word w)
  with assms(2) obtain b w' where w: "w = b # w'" "is_letter b" "list_all is_wordchar w'"
    by (cases w) auto
  from assms(3) Word have "rest = [] \<or> \<not> is_wordchar (hd rest)" by simp
  from run_split [OF w(3) this] joined_clean(4) [OF assms(1) w(2), of "w' @ rest"]
  show ?thesis by (simp add: Word w(1))
next
  case (Number d)
  with assms(2) obtain b d' where d: "d = b # d'" "is_digit b" "list_all is_digit d'"
    by (cases d) auto
  from assms(3) Number have "rest = [] \<or> \<not> is_digit (hd rest)" by simp
  from run_split [OF d(3) this] joined_clean(2) [OF assms(1) d(2), of "d' @ rest"]
  show ?thesis by (simp add: Number d(1) str_def)
next
  case (Blank w)
  with assms(2) obtain b w' where w: "w = b # w'" "is_space b" "list_all is_space w'"
    by (cases w) auto
  from assms(3) Blank have "rest = [] \<or> \<not> is_space (hd rest)" by simp
  from run_split [OF w(3) this] joined_clean(3) [OF assms(1) w(2), of "w' @ rest"]
  show ?thesis by (simp add: Blank w(1) str_def)
next
  case (Quoted q s)
  with assms(2) have q: "is_quote q" "inner q False s" by simp_all
  from q(1) have "q \<noteq> 92" by (auto simp: is_quote_def)
  from scan_quote_inner [OF q(2) this, of 1 rest]
  have "scan_quote q False 1 (s @ q # rest) - 1 = length (s @ [q])" by simp
  then have "drop (scan_quote q False 1 (s @ q # rest) - 1) (s @ q # rest) = rest"
    by (metis append.assoc append_Cons append_Nil append_eq_conv_conj)
  with joined_clean(1) [OF assms(1) q(1), of "s @ q # rest"]
  show ?thesis by (simp add: Quoted str_def)
next
  case (Sym c)
  with assms(2) have "is_plain c" by simp
  from joined_clean(5) [OF assms(1) this, of rest] show ?thesis by (simp add: Sym)
qed

lemma written_not_Nil: "lexeme_ok x \<Longrightarrow> written x \<noteq> []"
  by (cases x) auto

lemma joined_lexemes:
  assumes "clean cfg"
  shows "lexemes_ok xs \<Longrightarrow> joined cfg (query_of xs) = masked xs"
proof (induction xs rule: lexemes_ok.induct)
  case 1
  show ?case by simp
next
  case (2 x)
  then have "lexeme_ok x" by simp
  from joined_lexeme [OF assms this, of "[]"] show ?case by simp
next
  case (3 x y xs)
  then have x: "lexeme_ok x" and g: "\<not> goes_on x (hd (written y))" and r: "lexemes_ok (y # xs)"
    and y: "lexeme_ok y"
    by (cases xs; simp)+
  from written_not_Nil [OF y] have "hd (query_of (y # xs)) = hd (written y)" by simp
  with g have "query_of (y # xs) = [] \<or> \<not> goes_on x (hd (query_of (y # xs)))" by simp
  from joined_lexeme [OF assms x this] "3.IH" [OF r] show ?case by simp
qed

lemma cleanupQuery_lexemes:
  assumes "clean cfg" and "lexemes_ok xs"
  shows "cleanupQuery cfg (query_of xs) = Inr (collapse (strip_host (masked xs)))"
  by (simp add: cleanupQuery_stages joined_lexemes [OF assms])

subsection \<open>Ways to differ\<close>

text \<open>
  Two items are alike when both are numbers, both are quoted strings, both are runs of
  whitespace, or they are the same item.
\<close>

fun alike :: "lexeme \<Rightarrow> lexeme \<Rightarrow> bool" where
  "alike (Number d) (Number d') = True"
| "alike (Quoted q s) (Quoted q' s') = True"
| "alike (Blank w) (Blank w') = True"
| "alike x y = (x = y)"

fun is_literal :: "lexeme \<Rightarrow> bool" where
  "is_literal (Number d) = True"
| "is_literal (Quoted q s) = True"
| "is_literal x = False"

fun is_blank :: "lexeme \<Rightarrow> bool" where
  "is_blank (Blank w) = True"
| "is_blank x = False"

text \<open>
  Literals of a list, each followed by a comma and whitespace; the last literal of the list
  comes after them.
\<close>

fun literal_run :: "lexeme list \<Rightarrow> bool" where
  "literal_run [] = True"
| "literal_run (l # Sym c # Blank w # xs) = (is_literal l \<and> c = 44 \<and> literal_run xs)"
| "literal_run xs = False"

text \<open>The number of whitespace runs among the items.\<close>

definition blanks :: "lexeme list \<Rightarrow> nat" where
  "blanks xs = length (filter is_blank xs)"

lemma alike_mask: "alike x y \<Longrightarrow> mask x = mask y"
  by (induction x y rule: alike.induct) simp_all

lemma alike_masked: "list_all2 alike xs ys \<Longrightarrow> masked xs = masked ys"
  by (induction rule: list_all2_induct) (simp_all add: alike_mask)

lemma alike_is_blank: "alike x y \<Longrightarrow> is_blank x = is_blank y"
  by (induction x y rule: alike.induct) simp_all

lemma alike_blanks: "list_all2 alike xs ys \<Longrightarrow> blanks xs = blanks ys"
  unfolding blanks_def
  by (induction rule: list_all2_induct) (simp_all add: alike_is_blank)

lemma literal_mask: "is_literal l \<Longrightarrow> mask l = [63]"
  by (cases l) (simp_all add: str_def)

lemma collapse_literal_run: "literal_run T \<Longrightarrow> collapse (masked T @ s) = collapse s"
  by (induction T rule: literal_run.induct) (simp_all add: literal_mask str_def)

lemma literal_run_head: "literal_run T \<Longrightarrow> T \<noteq> [] \<Longrightarrow> hd (masked T) = 63"
  by (induction T rule: literal_run.induct) (simp_all add: literal_mask)

lemma collapse_split:
  assumes "y = [] \<or> (hd y \<noteq> 44 \<and> hd y \<noteq> 32)"
  shows "collapse (x @ y) = collapse x @ collapse y"
proof (induction x rule: collapse_induct)
  case nil
  show ?case by simp
next
  case (match r)
  then show ?case by simp
next
  case (step c r)
  have t3: "take 3 (c # s) = c # take 2 s" for s :: bytes
    by (simp add: numeral_3_eq_3 numeral_2_eq_2)
  have "take 3 (c # r @ y) \<noteq> [63, 44, 32]"
  proof (cases "length r \<ge> 2")
    case True
    then have e: "take 2 (r @ y) = take 2 r" by simp
    have "take 3 (c # r @ y) = take 3 (c # r)"
      by (simp only: t3 e)
    then show ?thesis
      by (simp only: step.hyps not_False_eq_True)
  next
    case False
    then consider "r = []" | e where "r = [e]"
      by (cases r; cases "tl r") auto
    then show ?thesis
    proof cases
      case 1
      with assms show ?thesis by (cases y) (auto simp: t3)
    next
      case 2
      with assms show ?thesis by (cases y) (auto simp: t3 numeral_2_eq_2)
    qed
  qed
  then have "collapse ((c # r) @ y) = c # collapse (r @ y)"
    using collapse_Cons [of c "r @ y"] by simp
  with step.IH show ?case
    by (simp add: collapse_Cons [OF step.hyps])
qed

lemma SplitN_full:
  "k \<le> length (filter (\<lambda>x. x = c) s) \<Longrightarrow> length (SplitN s [c] (Suc k)) = Suc k"
proof (induction k arbitrary: s)
  case 0
  show ?case by (simp add: SplitN.simps)
next
  case (Suc k)
  from Suc.prems have "filter (\<lambda>x. x = c) s \<noteq> []" by auto
  then have "c \<in> set s" by (auto simp: filter_empty_conv)
  then obtain p rest where e: "s = p @ c # rest" "c \<notin> set p" by (rule split_first)
  from e(2) have "filter (\<lambda>x. x = c) p = []" by (auto simp: filter_empty_conv)
  with Suc.prems e(1) have "k \<le> length (filter (\<lambda>x. x = c) rest)" by simp
  from Suc.IH [OF this] show ?case
    unfolding e(1) SplitN_sep [OF e(2)] by simp
qed

lemma strip_host_append:
  assumes "4 \<le> length (filter (\<lambda>x. x = 32) a)"
  shows "strip_host (a @ y) = strip_host a @ y"
proof -
  have "length (SplitN a [32] (Suc 4)) = Suc 4"
    using assms by (rule SplitN_full)
  then have "length (SplitN a [32] 5) \<ge> 5" by simp
  then obtain p0 p1 p2 p3 p4
    where a: "a = p0 @ 32 # p1 @ 32 # p2 @ 32 # p3 @ 32 # p4"
      and n: "32 \<notin> set p0" "32 \<notin> set p1" "32 \<notin> set p2" "32 \<notin> set p3"
      and s: "SplitN a [32] 5 = [p0, p1, p2, p3, p4]"
    by (rule SplitN_five)
  have "a @ y = p0 @ 32 # p1 @ 32 # p2 @ 32 # p3 @ 32 # (p4 @ y)"
    unfolding a by simp
  then have s': "SplitN (a @ y) [32] 5 = [p0, p1, p2, p3, p4 @ y]"
    using SplitN_five_build [OF n, of "p4 @ y"] by simp
  show ?thesis
    unfolding strip_host_def Let_def str_consts s s' by simp
qed

lemma strip_host_prefix:
  assumes "32 \<notin> set p" "32 \<notin> set h" "32 \<notin> set r" "58 \<notin> set h"
  shows "strip_host (p @ [32, 47, 42, 32] @ h @ 58 # r @ [32, 42, 47, 32] @ b)
           = p @ [32, 47, 42, 32] @ r @ [32, 42, 47, 32] @ b"
proof -
  have n: "32 \<notin> set [47, 42 :: byte]" "32 \<notin> set (h @ 58 # r)" "32 \<notin> set [42, 47 :: byte]"
    using assms by simp_all
  have "SplitN (p @ 32 # [47, 42] @ 32 # (h @ 58 # r) @ 32 # [42, 47] @ 32 # b) [32] 5
      = [p, [47, 42], h @ 58 # r, [42, 47], b]"
    by (rule SplitN_five_build [OF assms(1) n])
  then have s: "SplitN (p @ [32, 47, 42, 32] @ h @ 58 # r @ [32, 42, 47, 32] @ b) [32] 5
      = [p, [47, 42], h @ 58 # r, [42, 47], b]"
    by simp
  show ?thesis
    unfolding strip_host_def Let_def str_consts s
    by (simp add: Contains_single SplitN_colon [OF assms(4)])
qed

lemma strip_host_route:
  assumes "32 \<notin> set p" "32 \<notin> set r" "58 \<notin> set r"
  shows "strip_host (p @ [32, 47, 42, 32] @ r @ [32, 42, 47, 32] @ b)
           = p @ [32, 47, 42, 32] @ r @ [32, 42, 47, 32] @ b"
proof -
  have n: "32 \<notin> set [47, 42 :: byte]" "32 \<notin> set [42, 47 :: byte]"
    by simp_all
  have "SplitN (p @ 32 # [47, 42] @ 32 # r @ 32 # [42, 47] @ 32 # b) [32] 5
      = [p, [47, 42], r, [42, 47], b]"
    by (rule SplitN_five_build [OF assms(1) n(1) assms(2) n(2)])
  then have s: "SplitN (p @ [32, 47, 42, 32] @ r @ [32, 42, 47, 32] @ b) [32] 5
      = [p, [47, 42], r, [42, 47], b]"
    by simp
  show ?thesis
    unfolding strip_host_def Let_def str_consts s
    using assms(3) by (simp add: Contains_single)
qed


lemma blanks_masked: "blanks xs \<le> length (filter (\<lambda>c. c = 32) (masked xs))"
proof (induction xs)
  case Nil
  show ?case by (simp add: blanks_def)
next
  case (Cons x xs)
  then show ?case by (cases x) (simp_all add: blanks_def str_def)
qed

lemma literal_tail:
  assumes "literal_run T" and "is_literal l"
  shows "masked (A @ T @ l # B) = masked A @ masked T @ 63 # masked B"
    and "collapse (x @ masked T @ 63 # masked B) = collapse x @ collapse (63 # masked B)"
proof -
  show "masked (A @ T @ l # B) = masked A @ masked T @ 63 # masked B"
    by (simp add: literal_mask [OF assms(2)])
  have "hd (masked T @ 63 # masked B) = 63"
    using literal_run_head [OF assms(1)] by (cases "T = []"; cases "masked T") auto
  then show "collapse (x @ masked T @ 63 # masked B) = collapse x @ collapse (63 # masked B)"
    using collapse_split [of "masked T @ 63 # masked B" x]
      collapse_literal_run [OF assms(1), of "63 # masked B"]
    by simp
qed

lemma list_fingerprint_far:
  assumes "literal_run T" and "is_literal l" and "4 \<le> blanks A"
  shows "collapse (strip_host (masked (A @ T @ l # B)))
           = collapse (strip_host (masked A)) @ collapse (63 # masked B)"
proof -
  from assms(3) blanks_masked [of A] have "4 \<le> length (filter (\<lambda>x. x = 32) (masked A))"
    by simp
  from strip_host_append [OF this, of "masked T @ 63 # masked B"] show ?thesis
    unfolding literal_tail(1) [OF assms(1,2)]
    by (simp only: literal_tail(2) [OF assms(1,2)])
qed

lemma list_fingerprint_plain:
  assumes "literal_run T" and "is_literal l"
    and "\<not> has_host_comment (masked (A @ T @ l # B))"
  shows "collapse (strip_host (masked (A @ T @ l # B)))
           = collapse (masked A) @ collapse (63 # masked B)"
  by (simp only: strip_host_absent [OF assms(3)]) (simp only: literal_tail [OF assms(1,2)])

lemma list_invariance:
  assumes "clean cfg" and "lexemes_ok xs" and "lexemes_ok ys"
    and "xs = A @ T @ l # B" and "ys = A' @ T' @ l' # B'"
    and "list_all2 alike A A'" and "list_all2 alike B B'"
    and "literal_run T" and "literal_run T'" and "is_literal l" and "is_literal l'"
    and "4 \<le> blanks A \<or> (\<not> has_host_comment (masked xs) \<and> \<not> has_host_comment (masked ys))"
  shows "cleanupQuery cfg (query_of xs) = cleanupQuery cfg (query_of ys)"
proof -
  note a = alike_masked [OF assms(6)] and b = alike_masked [OF assms(7)]
  have "collapse (strip_host (masked xs)) = collapse (strip_host (masked ys))"
  proof (cases "4 \<le> blanks A")
    case True
    with alike_blanks [OF assms(6)] have "4 \<le> blanks A'" by simp
    from list_fingerprint_far [OF assms(8,10) True, of B]
      list_fingerprint_far [OF assms(9,11) this, of B']
    show ?thesis unfolding assms(4,5) by (simp only: a b)
  next
    case False
    with assms(12) have "\<not> has_host_comment (masked (A @ T @ l # B))"
      "\<not> has_host_comment (masked (A' @ T' @ l' # B'))"
      unfolding assms(4,5) by simp_all
    from list_fingerprint_plain [OF assms(8,10) this(1)]
      list_fingerprint_plain [OF assms(9,11) this(2)]
    show ?thesis unfolding assms(4,5) by (simp only: a b)
  qed
  then show ?thesis
    by (simp add: cleanupQuery_lexemes [OF assms(1,2)] cleanupQuery_lexemes [OF assms(1,3)])
qed

lemma all_lexeme_ok: "lexemes_ok xs \<Longrightarrow> list_all lexeme_ok xs"
  by (induction xs rule: lexemes_ok.induct) simp_all

lemma mask_no_space: "lexeme_ok x \<Longrightarrow> \<not> is_blank x \<Longrightarrow> 32 \<notin> set (mask x)"
proof (cases x)
  case (Word w)
  assume "lexeme_ok x"
  with Word have "w \<noteq> []" "is_letter (hd w)" "list_all is_wordchar (tl w)" by simp_all
  then have "\<forall>c \<in> set w. is_wordchar c"
    by (cases w) (auto simp: is_wordchar_def list_all_iff)
  with wordchar_not_space show ?thesis
    unfolding Word by (auto simp: is_space_def)
qed (auto simp: str_def is_plain_def is_space_def)

lemma masked_no_space:
  "list_all lexeme_ok xs \<Longrightarrow> list_all (\<lambda>x. \<not> is_blank x) xs \<Longrightarrow> 32 \<notin> set (masked xs)"
  by (induction xs) (auto simp: mask_no_space)

lemma mask_no_colon: "lexeme_ok x \<Longrightarrow> x \<noteq> Sym 58 \<Longrightarrow> 58 \<notin> set (mask x)"
proof (cases x)
  case (Word w)
  assume "lexeme_ok x"
  with Word have "w \<noteq> []" "is_letter (hd w)" "list_all is_wordchar (tl w)" by simp_all
  then have "\<forall>c \<in> set w. is_wordchar c"
    by (cases w) (auto simp: is_wordchar_def list_all_iff)
  moreover have "\<not> is_wordchar 58"
    by (simp add: is_wordchar_def is_digit_def is_letter_def)
  ultimately show ?thesis
    unfolding Word by auto
qed (auto simp: str_def)

lemma masked_no_colon:
  "list_all lexeme_ok xs \<Longrightarrow> Sym 58 \<notin> set xs \<Longrightarrow> 58 \<notin> set (masked xs)"
  by (induction xs) (auto simp: mask_no_colon)

text \<open>The items of \<open>/*\<close> and of \<open>*/\<close> between two whitespace runs.\<close>

definition comment_open :: "bytes \<Rightarrow> bytes \<Rightarrow> lexeme list" where
  "comment_open w w' = [Blank w, Sym 47, Sym 42, Blank w']"

definition comment_close :: "bytes \<Rightarrow> bytes \<Rightarrow> lexeme list" where
  "comment_close w w' = [Blank w, Sym 42, Sym 47, Blank w']"

lemma comment_masked:
  "masked (comment_open w w') = [32, 47, 42, 32]"
  "masked (comment_close w w') = [32, 42, 47, 32]"
  by (simp_all add: comment_open_def comment_close_def str_def)

lemma host_invariance:
  assumes "clean cfg" and "lexemes_ok xs" and "lexemes_ok ys"
    and "xs = P @ comment_open w1 w2 @ H @ Sym 58 # R @ comment_close w3 w4 @ B"
    and "ys = P' @ comment_open w1' w2' @ R' @ comment_close w3' w4' @ B'"
    and "list_all2 alike P P'" and "list_all2 alike R R'" and "list_all2 alike B B'"
    and "list_all (\<lambda>x. \<not> is_blank x) (P @ H @ R)"
    and "Sym 58 \<notin> set (H @ R)"
  shows "cleanupQuery cfg (query_of xs) = cleanupQuery cfg (query_of ys)"
proof -
  from all_lexeme_ok [OF assms(2)] have ok: "list_all lexeme_ok P" "list_all lexeme_ok H"
    "list_all lexeme_ok R"
    unfolding assms(4) by simp_all
  from assms(9) have nb: "list_all (\<lambda>x. \<not> is_blank x) P" "list_all (\<lambda>x. \<not> is_blank x) H"
    "list_all (\<lambda>x. \<not> is_blank x) R"
    by simp_all
  from assms(10) have nc: "Sym 58 \<notin> set H" "Sym 58 \<notin> set R" by simp_all
  note s = masked_no_space [OF ok(1) nb(1)] masked_no_space [OF ok(2) nb(2)]
    masked_no_space [OF ok(3) nb(3)]
  note c = masked_no_colon [OF ok(2) nc(1)] masked_no_colon [OF ok(3) nc(2)]
  have x: "strip_host (masked xs)
      = masked P @ [32, 47, 42, 32] @ masked R @ [32, 42, 47, 32] @ masked B"
    using strip_host_prefix [OF s c(1), of "masked B"]
    unfolding assms(4) by (simp add: comment_masked)
  have y: "strip_host (masked ys)
      = masked P @ [32, 47, 42, 32] @ masked R @ [32, 42, 47, 32] @ masked B"
    using strip_host_route [OF s(1,3) c(2), of "masked B"]
    unfolding assms(5)
    by (simp add: comment_masked alike_masked [OF assms(6), symmetric]
        alike_masked [OF assms(7), symmetric] alike_masked [OF assms(8), symmetric])
  show ?thesis
    by (simp add: cleanupQuery_lexemes [OF assms(1,2)] cleanupQuery_lexemes [OF assms(1,3)] x y)
qed

lemma shape_invariance:
  assumes "clean cfg" and "lexemes_ok xs" and "lexemes_ok ys" and "list_all2 alike xs ys"
  shows "cleanupQuery cfg (query_of xs) = cleanupQuery cfg (query_of ys)"
  by (simp add: cleanupQuery_lexemes [OF assms(1,2)] cleanupQuery_lexemes [OF assms(1,3)]
      alike_masked [OF assms(4)])

subsection \<open>The example of the documentation\<close>

definition in_head :: "lexeme list" where
  "in_head =
     [Word (str ''select''), Blank (str '' ''), Sym 42, Blank (str '' ''), Word (str ''from''),
      Blank (str '' ''), Word (str ''table''), Blank (str '' ''), Word (str ''where''),
      Blank (str '' ''), Word (str ''x''), Blank (str '' ''), Word (str ''in''),
      Blank (str '' ''), Sym 40]"

definition two_literals :: "lexeme list" where
  "two_literals =
     [Number (str ''1''), Sym 44, Blank (str '' ''), Number (str ''2''), Sym 44, Blank (str '' '')]"

definition in_example :: "lexeme list" where
  "in_example = in_head @ two_literals @ Quoted 39 (str ''foo'') # [Sym 41]"

lemma in_example_facts:
  "query_of in_example = str ''select * from table where x in (1, 2, 'foo')''"
  "lexemes_ok in_example"
  "collapse (strip_host (masked in_example)) = str ''select * from table where x in (?)''"
  by code_simp+

subsection \<open>Invariance\<close>

text \<open>
  C4. Unless both \<open>verbose\<close> and \<open>noclean\<close> are set, two queries have the same fingerprint
  when their lexical items are well formed and
  \<^item> the items are alike one by one: the queries differ only in the digits of numbers, in the
  contents and delimiters of quoted strings, and in the bytes of whitespace runs; or
  \<^item> the queries are alike up to a list of literals and after its last literal, and the lists
  differ in their number of literals, each but the last followed by a comma and whitespace,
  provided that four whitespace runs or more come before the list or that neither query has
  a leading comment with a colon for \<open>cleanupQuery\<close> to rewrite; or
  \<^item> the queries are alike but for \<open>host:\<close> at the start of the comment in
  \<open>/* host:route */\<close>, which comes after the items before the first whitespace run, where
  these items, the host and the route have no whitespace, and the host and the route no
  colon.

  The fingerprint of \<open>select * from table where x in (1, 2, 'foo')\<close> is
  \<open>select * from table where x in (?)\<close>.
\<close>

theorem cleanupQuery_invariances:
  assumes "clean cfg"
  shows "(\<forall>xs ys. lexemes_ok xs \<and> lexemes_ok ys \<and> list_all2 alike xs ys
           \<longrightarrow> cleanupQuery cfg (query_of xs) = cleanupQuery cfg (query_of ys))
   \<and> (\<forall>xs ys A A' T T' l l' B B'.
         lexemes_ok xs \<and> lexemes_ok ys
         \<and> xs = A @ T @ l # B \<and> ys = A' @ T' @ l' # B'
         \<and> list_all2 alike A A' \<and> list_all2 alike B B'
         \<and> literal_run T \<and> literal_run T' \<and> is_literal l \<and> is_literal l'
         \<and> (4 \<le> blanks A
              \<or> \<not> has_host_comment (masked xs) \<and> \<not> has_host_comment (masked ys))
         \<longrightarrow> cleanupQuery cfg (query_of xs) = cleanupQuery cfg (query_of ys))
   \<and> (\<forall>xs ys P P' H R R' B B' w1 w2 w3 w4 w1' w2' w3' w4'.
         lexemes_ok xs \<and> lexemes_ok ys
         \<and> xs = P @ comment_open w1 w2 @ H @ Sym 58 # R @ comment_close w3 w4 @ B
         \<and> ys = P' @ comment_open w1' w2' @ R' @ comment_close w3' w4' @ B'
         \<and> list_all2 alike P P' \<and> list_all2 alike R R' \<and> list_all2 alike B B'
         \<and> list_all (\<lambda>x. \<not> is_blank x) (P @ H @ R) \<and> Sym 58 \<notin> set (H @ R)
         \<longrightarrow> cleanupQuery cfg (query_of xs) = cleanupQuery cfg (query_of ys))
   \<and> cleanupQuery cfg (str ''select * from table where x in (1, 2, 'foo')'')
       = Inr (str ''select * from table where x in (?)'')"
proof (intro conjI allI impI)
  fix xs ys
  assume "lexemes_ok xs \<and> lexemes_ok ys \<and> list_all2 alike xs ys"
  then show "cleanupQuery cfg (query_of xs) = cleanupQuery cfg (query_of ys)"
    using shape_invariance [OF assms, of xs ys] by blast
next
  fix xs ys A A' T T' l l' B B'
  assume "lexemes_ok xs \<and> lexemes_ok ys
         \<and> xs = A @ T @ l # B \<and> ys = A' @ T' @ l' # B'
         \<and> list_all2 alike A A' \<and> list_all2 alike B B'
         \<and> literal_run T \<and> literal_run T' \<and> is_literal l \<and> is_literal l'
         \<and> (4 \<le> blanks A
              \<or> \<not> has_host_comment (masked xs) \<and> \<not> has_host_comment (masked ys))"
  then show "cleanupQuery cfg (query_of xs) = cleanupQuery cfg (query_of ys)"
    using list_invariance [OF assms, of xs ys A T l B A' T' l' B'] by blast
next
  fix xs ys P P' H R R' B B' w1 w2 w3 w4 w1' w2' w3' w4'
  assume "lexemes_ok xs \<and> lexemes_ok ys
         \<and> xs = P @ comment_open w1 w2 @ H @ Sym 58 # R @ comment_close w3 w4 @ B
         \<and> ys = P' @ comment_open w1' w2' @ R' @ comment_close w3' w4' @ B'
         \<and> list_all2 alike P P' \<and> list_all2 alike R R' \<and> list_all2 alike B B'
         \<and> list_all (\<lambda>x. \<not> is_blank x) (P @ H @ R) \<and> Sym 58 \<notin> set (H @ R)"
  then show "cleanupQuery cfg (query_of xs) = cleanupQuery cfg (query_of ys)"
    using host_invariance [OF assms, of xs ys P w1 w2 H R w3 w4 B P' w1' w2' R' w3' w4' B']
    by blast
next
  from cleanupQuery_lexemes [OF assms in_example_facts(2)]
  show "cleanupQuery cfg (str ''select * from table where x in (1, 2, 'foo')'')
       = Inr (str ''select * from table where x in (?)'')"
    by (simp only: in_example_facts)
qed

text \<open>
  Pairs of queries: a string in single quotes with a quote after a backslash, two spaces and
  \<open>limit 10\<close> against a string in double quotes, one space and \<open>limit 5\<close>; two lists after
  four whitespace runs; two lists in a call; two lists after three whitespace runs and two
  numbers; a comment with and without its host.
\<close>

definition limit_one :: "lexeme list" where
  "limit_one =
     [Word (str ''select''), Blank (str ''  ''), Word (str ''x''), Blank (str '' ''),
      Word (str ''from''), Blank (str '' ''), Word (str ''t''), Blank (str '' ''),
      Word (str ''where''), Blank (str '' ''), Word (str ''c''), Sym 61,
      Quoted 39 [97, 92, 39, 98], Blank (str '' ''), Word (str ''limit''), Blank (str '' ''),
      Number (str ''10'')]"

definition limit_two :: "lexeme list" where
  "limit_two =
     [Word (str ''select''), Blank (str '' ''), Word (str ''x''), Blank (str '' ''),
      Word (str ''from''), Blank (str '' ''), Word (str ''t''), Blank (str '' ''),
      Word (str ''where''), Blank (str '' ''), Word (str ''c''), Sym 61,
      Quoted 34 (str ''ab''), Blank (str '' ''), Word (str ''limit''), Blank (str '' ''),
      Number (str ''5'')]"

lemma limit_facts:
  "query_of limit_one = str ''select  x from t where c='' @ [39, 97, 92, 39, 98, 39] @ str '' limit 10''"
  "query_of limit_two = str ''select x from t where c=\"ab\" limit 5''"
  "lexemes_ok limit_one" "lexemes_ok limit_two" "list_all2 alike limit_one limit_two"
  by code_simp+

definition in_five :: "lexeme list" where
  "in_five = in_head @ [] @ Number (str ''5'') # [Sym 41]"

lemma in_five_facts:
  "query_of in_five = str ''select * from table where x in (5)''"
  "lexemes_ok in_five"
  "list_all2 alike in_head in_head" "list_all2 alike [Sym 41] [Sym 41]"
  "literal_run two_literals" "literal_run []"
  "is_literal (Quoted 39 (str ''foo''))" "is_literal (Number (str ''5''))"
  "4 \<le> blanks in_head"
  by code_simp+

definition call_head :: "lexeme list" where
  "call_head = [Word (str ''call''), Blank (str '' ''), Word (str ''p''), Sym 40]"

definition call_two :: "lexeme list" where
  "call_two = call_head @ [Number (str ''1''), Sym 44, Blank (str '' '')] @ Number (str ''2'') # [Sym 41]"

definition call_three :: "lexeme list" where
  "call_three = call_head @ two_literals @ Number (str ''3'') # [Sym 41]"

lemma call_facts:
  "query_of call_two = str ''call p(1, 2)''"
  "query_of call_three = str ''call p(1, 2, 3)''"
  "lexemes_ok call_two" "lexemes_ok call_three"
  "list_all2 alike call_head call_head"
  "literal_run [Number (str ''1''), Sym 44, Blank (str '' '')]"
  "is_literal (Number (str ''2''))" "is_literal (Number (str ''3''))"
  "\<not> has_host_comment (masked call_two)" "\<not> has_host_comment (masked call_three)"
  by code_simp+

definition member_head :: "bytes \<Rightarrow> lexeme list" where
  "member_head d =
     [Word (str ''select''), Blank (str '' ''), Number d, Blank (str '' ''), Word (str ''in''),
      Blank (str '' ''), Sym 40]"

definition member_two :: "lexeme list" where
  "member_two =
     member_head (str ''1'') @ [Number (str ''1''), Sym 44, Blank (str '' '')]
       @ Number (str ''2'') # [Sym 41]"

definition member_three :: "lexeme list" where
  "member_three = member_head (str ''7'') @ two_literals @ Number (str ''3'') # [Sym 41]"

lemma member_facts:
  "query_of member_two = str ''select 1 in (1, 2)''"
  "query_of member_three = str ''select 7 in (1, 2, 3)''"
  "lexemes_ok member_two" "lexemes_ok member_three"
  "list_all2 alike (member_head (str ''1'')) (member_head (str ''7''))"
  "\<not> has_host_comment (masked member_two)" "\<not> has_host_comment (masked member_three)"
  by code_simp+

definition users_tail :: "lexeme list" where
  "users_tail =
     [Sym 42, Blank (str '' ''), Word (str ''FROM''), Blank (str '' ''), Word (str ''users'')]"

definition with_host :: "lexeme list" where
  "with_host =
     [Word (str ''SELECT'')] @ comment_open (str '' '') (str '' '') @ [Word (str ''web1'')]
       @ Sym 58 # [Word (str ''orders'')] @ comment_close (str '' '') (str '' '') @ users_tail"

definition without_host :: "lexeme list" where
  "without_host =
     [Word (str ''SELECT'')] @ comment_open (str '' '') (str '' '') @ [Word (str ''orders'')]
       @ comment_close (str '' '') (str '' '') @ users_tail"

lemma host_facts:
  "query_of with_host = str ''SELECT /* web1:orders */ * FROM users''"
  "query_of without_host = str ''SELECT /* orders */ * FROM users''"
  "lexemes_ok with_host" "lexemes_ok without_host"
  "list_all2 alike [Word (str ''SELECT'')] [Word (str ''SELECT'')]"
  "list_all2 alike [Word (str ''orders'')] [Word (str ''orders'')]"
  "list_all2 alike users_tail users_tail"
  "list_all (\<lambda>x. \<not> is_blank x)
     ([Word (str ''SELECT'')] @ [Word (str ''web1'')] @ [Word (str ''orders'')])"
  "Sym 58 \<notin> set ([Word (str ''web1'')] @ [Word (str ''orders'')])"
  by code_simp+

lemma clean_default: "clean default_config"
  by code_simp

text \<open>Each pair has one fingerprint.\<close>

theorem cleanupQuery_invariances_witness:
  "cleanupQuery default_config
       (str ''select  x from t where c='' @ [39, 97, 92, 39, 98, 39] @ str '' limit 10'')
     = cleanupQuery default_config (str ''select x from t where c=\"ab\" limit 5'')
   \<and> cleanupQuery default_config (str ''select * from table where x in (1, 2, 'foo')'')
     = cleanupQuery default_config (str ''select * from table where x in (5)'')
   \<and> cleanupQuery default_config (str ''call p(1, 2)'')
     = cleanupQuery default_config (str ''call p(1, 2, 3)'')
   \<and> cleanupQuery default_config (str ''select 1 in (1, 2)'')
     = cleanupQuery default_config (str ''select 7 in (1, 2, 3)'')
   \<and> cleanupQuery default_config (str ''SELECT /* web1:orders */ * FROM users'')
     = cleanupQuery default_config (str ''SELECT /* orders */ * FROM users'')
   \<and> cleanupQuery default_config (str ''select * from table where x in (1, 2, 'foo')'')
     = Inr (str ''select * from table where x in (?)'')"
proof -
  note t = cleanupQuery_invariances [OF clean_default]
  have a: "cleanupQuery default_config (query_of limit_one)
      = cleanupQuery default_config (query_of limit_two)"
    using t [THEN conjunct1, rule_format, of limit_one limit_two] limit_facts(3-5) by blast
  have b: "cleanupQuery default_config (query_of in_example)
      = cleanupQuery default_config (query_of in_five)"
    using t [THEN conjunct2, THEN conjunct1, rule_format,
        of in_example in_five in_head two_literals "Quoted 39 (str ''foo'')" "[Sym 41]"
          in_head "[]" "Number (str ''5'')" "[Sym 41]"]
      in_example_facts(2) in_five_facts(2-9) by (simp add: in_example_def in_five_def)
  have c: "cleanupQuery default_config (query_of call_two)
      = cleanupQuery default_config (query_of call_three)"
    using t [THEN conjunct2, THEN conjunct1, rule_format,
        of call_two call_three call_head "[Number (str ''1''), Sym 44, Blank (str '' '')]"
          "Number (str ''2'')" "[Sym 41]" call_head two_literals "Number (str ''3'')" "[Sym 41]"]
      call_facts(3-10) in_five_facts(4,5) by (simp add: call_two_def call_three_def)
  have c': "cleanupQuery default_config (query_of member_two)
      = cleanupQuery default_config (query_of member_three)"
    using t [THEN conjunct2, THEN conjunct1, rule_format,
        of member_two member_three "member_head (str ''1'')"
          "[Number (str ''1''), Sym 44, Blank (str '' '')]" "Number (str ''2'')" "[Sym 41]"
          "member_head (str ''7'')" two_literals "Number (str ''3'')" "[Sym 41]"]
      member_facts(3-7) call_facts(6-8) in_five_facts(4,5)
    by (simp add: member_two_def member_three_def)
  have d: "cleanupQuery default_config (query_of with_host)
      = cleanupQuery default_config (query_of without_host)"
    using t [THEN conjunct2, THEN conjunct2, THEN conjunct1, rule_format,
        of with_host without_host "[Word (str ''SELECT'')]" "str '' ''" "str '' ''"
          "[Word (str ''web1'')]" "[Word (str ''orders'')]" "str '' ''" "str '' ''" users_tail
          "[Word (str ''SELECT'')]" "str '' ''" "str '' ''" "[Word (str ''orders'')]"
          "str '' ''" "str '' ''" users_tail]
      host_facts(3-9) by (simp add: with_host_def without_host_def)
  have e: "cleanupQuery default_config (str ''select * from table where x in (1, 2, 'foo')'')
      = Inr (str ''select * from table where x in (?)'')"
    using t [THEN conjunct2, THEN conjunct2, THEN conjunct2] .
  from a b c c' d e show ?thesis
    by (simp only: limit_facts(1,2) in_example_facts(1) in_five_facts(1) call_facts(1,2)
        member_facts(1,2) host_facts(1,2) simp_thms)
qed

text \<open>The flags \<open>-v -n\<close>.\<close>

definition debug_config :: config where
  "debug_config = default_config\<lparr>verbose := True, noclean := True\<rparr>"

text \<open>
  Other pairs have two fingerprints. A list whose commas have no whitespace after them keeps
  its size. A doubled quote inside a string ends one quote token and starts the next. After
  a string that ends with a backslash the quote token goes on to the end of the query. The
  digits of an exponent are part of a word. A route with a colon loses its first piece as if
  it were the host, and a comment with whitespace in its route is not rewritten. A list
  before the comment moves the comment out of the place where \<open>cleanupQuery\<close> looks for it.
  With \<open>-v -n\<close> nothing is replaced.
\<close>

theorem cleanupQuery_invariances_counterexample:
  "cleanupQuery default_config (str ''select * from table where x in (1,2)'')
     = Inr (str ''select * from table where x in (?,?)'')
   \<and> cleanupQuery default_config (str ''select * from table where x in (1,2,3)'')
     = Inr (str ''select * from table where x in (?,?,?)'')
   \<and> cleanupQuery default_config (str ''select * from t where name = \"its\"'')
     = Inr (str ''select * from t where name = ?'')
   \<and> cleanupQuery default_config (str ''select * from t where name = \"it\"\"s\"'')
     = Inr (str ''select * from t where name = ??'')
   \<and> cleanupQuery default_config (str ''select * from t where a = '' @ [39, 97, 98, 39] @ str '' and b = 1'')
     = Inr (str ''select * from t where a = ? and b = ?'')
   \<and> cleanupQuery default_config (str ''select * from t where a = '' @ [39, 97, 92, 92, 39] @ str '' and b = 1'')
     = Inr (str ''select * from t where a = ?'')
   \<and> cleanupQuery default_config (str ''select 1e5'') = Inr (str ''select ?e5'')
   \<and> cleanupQuery default_config (str ''select 1e6'') = Inr (str ''select ?e6'')
   \<and> cleanupQuery default_config (str ''SELECT /* web1:orders:list */ * FROM users'')
     = Inr (str ''SELECT /* orders:list */ * FROM users'')
   \<and> cleanupQuery default_config (str ''SELECT /* orders:list */ * FROM users'')
     = Inr (str ''SELECT /* list */ * FROM users'')
   \<and> cleanupQuery default_config (str ''SELECT /* web1:orders list */ x'')
     = Inr (str ''SELECT /* web1:orders list */ x'')
   \<and> cleanupQuery default_config (str ''SELECT /* orders list */ x'')
     = Inr (str ''SELECT /* orders list */ x'')
   \<and> cleanupQuery default_config (str ''(1) /* web1:orders */ x'')
     = Inr (str ''(?) /* orders */ x'')
   \<and> cleanupQuery default_config (str ''(1, 2) /* web1:orders */ x'')
     = Inr (str ''(?) /* web1:orders */ x'')
   \<and> cleanupQuery debug_config (str ''select 1'') = Inr (str ''select 1'')
   \<and> cleanupQuery debug_config (str ''select 2'') = Inr (str ''select 2'')"
  by code_simp

end
